theory Spec2Isabelle
  imports Complex_Main
begin

section \<open>JavaScript numbers\<close>

text \<open>
  The options \<open>limit\<close> and \<open>delay\<close> have the TypeScript type \<open>number\<close>. The client only
  compares such values (\<open>Math.max\<close>, \<open>Math.min\<close>), which is exact on finite values, so a
  finite number is modelled by the rational it denotes; \<open>NaN\<close> and the two infinities are
  values of their own.
\<close>

datatype number = Num rat | NaN | PosInfinity | NegInfinity

text \<open>The comparison \<open>a <= b\<close> of JavaScript: false as soon as one side is \<open>NaN\<close>.\<close>

fun num_le :: "number \<Rightarrow> number \<Rightarrow> bool" where
  "num_le NaN _ = False"
| "num_le _ NaN = False"
| "num_le NegInfinity _ = True"
| "num_le _ PosInfinity = True"
| "num_le (Num a) (Num b) = (a \<le> b)"
| "num_le (Num a) NegInfinity = False"
| "num_le PosInfinity _ = False"

text \<open>The comparison \<open>a < b\<close> of JavaScript.\<close>

definition num_lt :: "number \<Rightarrow> number \<Rightarrow> bool" where
  "num_lt a b = (num_le a b \<and> a \<noteq> b)"

text \<open>\<open>Math.max(a, b)\<close> and \<open>Math.min(a, b)\<close>: \<open>NaN\<close> if either argument is \<open>NaN\<close>.\<close>

definition Math_max :: "number \<Rightarrow> number \<Rightarrow> number" where
  "Math_max a b = (if a = NaN \<or> b = NaN then NaN else if num_le a b then b else a)"

definition Math_min :: "number \<Rightarrow> number \<Rightarrow> number" where
  "Math_min a b = (if a = NaN \<or> b = NaN then NaN else if num_le a b then a else b)"

text \<open>\<open>Number.isInteger\<close>: a finite number without fractional part.\<close>

fun isInteger :: "number \<Rightarrow> bool" where
  "isInteger (Num r) = (of_int \<lfloor>r\<rfloor> = r)"
| "isInteger _ = False"

section \<open>Parameter builder\<close>

definition COUNTRY_CODE :: string where
  "COUNTRY_CODE = ''AU''"

definition MAX_LIMIT :: number where
  "MAX_LIMIT = Num 100"

definition DELAY_TIME :: number where
  "DELAY_TIME = Num 5000"

text \<open>
  Values that the code throws or rejects a promise with. \<open>Error msg\<close> is a plain
  \<open>new Error(msg)\<close>; \<open>ValiError\<close> carries the issues reported by the schema validator;
  \<open>TransportError\<close> carries the value the HTTP transport rejected with, as it is.
\<close>

record axios_fault =
  status :: "int option"
  message :: string

datatype thrown =
    Error string
  | ValiError "string list"
  | TooManyRequestsError
  | TransportError axios_fault

record FuzzySearchOptions =
  apiKey :: "string option"
  delay :: "number option"
  limit :: "number option"

record AutoCompleteParams =
  key :: string
  countrySet :: string
  limit :: number

text \<open>
  \<open>getParams options\<close>, with the environment variable \<open>TOMTOM_API_KEY\<close> as the second
  argument (\<open>None\<close> when it is not defined). \<open>a ?? b\<close> is \<open>b\<close> only when \<open>a\<close> is undefined,
  and \<open>!key\<close> holds of the undefined value and of the empty string.
\<close>

definition getParams :: "FuzzySearchOptions \<Rightarrow> string option \<Rightarrow> thrown + AutoCompleteParams" where
  "getParams options env =
     (case (case apiKey options of Some k \<Rightarrow> Some k | None \<Rightarrow> env) of
        None \<Rightarrow> Inl (Error ''Missing API key or TOMTOM_API_KEY environment variable'')
      | Some k \<Rightarrow>
          if k = []
          then Inl (Error ''Missing API key or TOMTOM_API_KEY environment variable'')
          else Inr \<lparr> key = k,
                     countrySet = COUNTRY_CODE,
                     limit = (case FuzzySearchOptions.limit options of
                                None \<Rightarrow> MAX_LIMIT
                              | Some l \<Rightarrow> Math_min (Math_max (Num 1) l) MAX_LIMIT) \<rparr>)"

section \<open>Result mapper\<close>

text \<open>
  The validated address of a search result (\<open>addressSchema\<close>): a field declared
  \<open>v.optional\<close> is \<open>None\<close> when the payload does not have it.
\<close>

record Address =
  streetNumber :: "string option"
  streetName :: string
  municipalitySubdivision :: "string option"
  municipalitySecondarySubdivision :: "string option"
  neighbourhood :: "string option"
  municipality :: "string option"
  countrySecondarySubdivision :: "string option"
  countryTertiarySubdivision :: "string option"
  countrySubdivision :: "string option"
  postalCode :: "string option"
  postalName :: "string option"
  extendedPostalCode :: "string option"
  countryCode :: string
  country :: string
  countryCodeISO3 :: string
  freeformAddress :: string
  countrySubdivisionName :: "string option"
  countrySubdivisionCode :: "string option"
  localName :: "string option"

text \<open>
  A validated search result and response, with the fields that the client reads; the
  score, position, viewport and the fields of each result variant are validated by the
  schema and read nowhere.
\<close>

record SearchResult =
  result_id :: string
  address :: Address

record SearchResponse =
  results :: "SearchResult list"

record AutoCompleteResult =
  placeId :: string
  streetNumber :: "string option"
  countryCode :: string
  country :: string
  freeformAddress :: string
  municipality :: "string option"

definition toAutoCompleteResult :: "SearchResult \<Rightarrow> AutoCompleteResult" where
  "toAutoCompleteResult result =
     (let a = SearchResult.address result; i = result_id result in
      \<lparr> placeId = i,
        streetNumber = Address.streetNumber a,
        countryCode = Address.countryCode a,
        country = Address.country a,
        freeformAddress = Address.freeformAddress a,
        municipality = Address.municipality a \<rparr>)"

section \<open>Request executor\<close>

definition SEARCH_URL :: string where
  "SEARCH_URL = ''https://api.tomtom.com/search/2/search''"

text \<open>
  \<open>encodeURIComponent\<close> on a UTF-8 string: every byte other than a letter, a digit and
  \<open>- _ . ! ~ * ' ( )\<close> becomes \<open>%XX\<close>.
\<close>

definition unreserved :: "char \<Rightarrow> bool" where
  "unreserved c =
     (c \<in> set (''ABCDEFGHIJKLMNOPQRSTUVWXYZabcdefghijklmnopqrstuvwxyz0123456789-_.!~*()''
               @ [CHR 0x27]))"

definition hexdigit :: "nat \<Rightarrow> char" where
  "hexdigit n = ''0123456789ABCDEF'' ! (n mod 16)"

definition encodeURIComponent :: "string \<Rightarrow> string" where
  "encodeURIComponent s =
     concat (map (\<lambda>c. if unreserved c then [c]
                       else [CHR ''%'', hexdigit (of_char c div 16), hexdigit (of_char c)]) s)"

record AutoCompleteOptions =
  signal :: "nat option"
  timeout :: "number option"

text \<open>What \<open>axios.get\<close> is called with: the URL and the config (the options and \<open>params\<close>).\<close>

record axios_request =
  url :: string
  config_options :: AutoCompleteOptions
  config_params :: AutoCompleteParams

text \<open>How the promise of \<open>axios.get\<close> settles: with the response data, or with a fault.\<close>

datatype 'd axios_outcome = Resolves 'd | Rejects axios_fault

definition request_of :: "AutoCompleteParams \<Rightarrow> string \<Rightarrow> AutoCompleteOptions \<Rightarrow> axios_request" where
  "request_of ps addr opts =
     (let query = encodeURIComponent addr in
      \<lparr> url = SEARCH_URL @ ''/'' @ query @ ''.json'',
        config_options = opts,
        config_params = ps \<rparr>)"

text \<open>
  \<open>getAutoCompleteResults\<close>. The schema validator \<open>parseResponse\<close> (a call of the
  validation library) and the transport (\<open>axios.get\<close>) are parameters: the validator
  returns the validated response or the issues it throws a \<open>ValiError\<close> with.
  \<open>getAutoCompleteResults_resume\<close> is the function from its \<open>await\<close> on, with the
  outcome of the call of \<open>axios.get\<close>.
\<close>

definition getAutoCompleteResults_resume ::
  "('d \<Rightarrow> string list + SearchResponse) \<Rightarrow> 'd axios_outcome \<Rightarrow> thrown + AutoCompleteResult list" where
  "getAutoCompleteResults_resume parseResponse out =
     (case out of
        Resolves data \<Rightarrow>
          (case parseResponse data of
             Inl issues \<Rightarrow> Inl (ValiError issues)
           | Inr res \<Rightarrow> Inr (map toAutoCompleteResult (results res)))
      | Rejects err \<Rightarrow>
          if status err = Some 429 then Inl TooManyRequestsError
          else Inl (TransportError err))"

definition getAutoCompleteResults ::
  "('d \<Rightarrow> string list + SearchResponse) \<Rightarrow> (axios_request \<Rightarrow> 'd axios_outcome) \<Rightarrow>
   AutoCompleteParams \<Rightarrow> string \<Rightarrow> AutoCompleteOptions \<Rightarrow> thrown + AutoCompleteResult list" where
  "getAutoCompleteResults parseResponse transport ps addr opts =
     getAutoCompleteResults_resume parseResponse (transport (request_of ps addr opts))"

section \<open>The stateful client\<close>

text \<open>
  A queued request holds the arguments of the call and its promise. The promise is an
  index into the promise store of the runtime; \<open>req.resolve\<close> and \<open>req.reject\<close> settle
  the promise at that index.
\<close>

record QueuedRequest =
  address :: string
  options :: AutoCompleteOptions
  promise :: nat

text \<open>
  The state of a promise. \<open>Follows q\<close> is the state of the promise of an \<open>async\<close> function
  that has returned the promise \<open>q\<close>: it settles as \<open>q\<close> does.
\<close>

datatype pstate =
    Pending
  | Fulfilled "AutoCompleteResult list"
  | Rejected thrown
  | Follows nat

text \<open>
  The point at which an \<open>async\<close> function waits for \<open>axios.get\<close>, with the variables it holds:
  the body of \<open>_runAutoComplete\<close> (the arguments and the promise of the call), or the
  function that the timer callback maps over the queue (the request).
\<close>

datatype continuation =
    RunAutoComplete string AutoCompleteOptions nat
  | DrainRequest QueuedRequest

record axios_call =
  request :: axios_request
  continuation :: continuation

text \<open>The private fields of a \<open>FuzzySearch\<close> object; \<open>timeout\<close> holds a timer handle.\<close>

record FuzzySearch =
  delay :: number
  params :: AutoCompleteParams
  queue :: "QueuedRequest list option"
  timeout :: "nat option"

text \<open>
  The client in its JavaScript runtime: the promise store, the timers that are set and
  have neither fired nor been cleared (each with its delay; the only callback the code
  ever registers is the drain), the number of calls of \<open>axios.get\<close> made so far and the
  calls that have not settled yet, the \<open>n\<close>-th call under the key \<open>n\<close>.
\<close>

record runtime = FuzzySearch +
  promises :: "pstate list"
  timers :: "nat \<rightharpoonup> number"
  next_timer :: nat
  calls :: nat
  inflight :: "nat \<rightharpoonup> axios_call"

text \<open>\<open>new FuzzySearch(options)\<close>, in a runtime where nothing has happened yet.\<close>

definition new_FuzzySearch :: "FuzzySearchOptions \<Rightarrow> string option \<Rightarrow> thrown + runtime" where
  "new_FuzzySearch opts env =
     (case getParams opts env of
        Inl e \<Rightarrow> Inl e
      | Inr ps \<Rightarrow>
          Inr \<lparr> delay = (case FuzzySearchOptions.delay opts of Some d \<Rightarrow> d | None \<Rightarrow> DELAY_TIME),
                params = ps, queue = None, timeout = None,
                promises = [], timers = Map.empty, next_timer = 0,
                calls = 0, inflight = Map.empty \<rparr>)"

text \<open>Settling a promise; a promise that is no longer pending stays as it is.\<close>

definition settle :: "nat \<Rightarrow> pstate \<Rightarrow> runtime \<Rightarrow> runtime" where
  "settle p v w =
     (if p < length (promises w) \<and> promises w ! p = Pending
      then w\<lparr>promises := (promises w)[p := v]\<rparr> else w)"

definition resolve :: "nat \<Rightarrow> AutoCompleteResult list \<Rightarrow> runtime \<Rightarrow> runtime" where
  "resolve p rs w = settle p (Fulfilled rs) w"

definition reject :: "nat \<Rightarrow> thrown \<Rightarrow> runtime \<Rightarrow> runtime" where
  "reject p cause w = settle p (Rejected cause) w"

text \<open>What the holder of the promise \<open>p\<close> observes.\<close>

definition observed :: "runtime \<Rightarrow> nat \<Rightarrow> pstate" where
  "observed w p =
     (if p < length (promises w)
      then (case promises w ! p of
              Follows q \<Rightarrow> (if q < length (promises w) then promises w ! q else Pending)
            | st \<Rightarrow> st)
      else Pending)"

definition new_promise :: "runtime \<Rightarrow> nat \<times> runtime" where
  "new_promise w = (length (promises w), w\<lparr>promises := promises w @ [Pending]\<rparr>)"

definition createQueuedRequest ::
  "string \<Rightarrow> AutoCompleteOptions \<Rightarrow> runtime \<Rightarrow> QueuedRequest \<times> runtime" where
  "createQueuedRequest addr opts w =
     (let (p, w') = new_promise w in (\<lparr> address = addr, options = opts, promise = p \<rparr>, w'))"

text \<open>Timers: \<open>setTimeout\<close> of the drain callback, and \<open>clearTimeout\<close> of a field that may be unset.\<close>

definition setTimeout :: "number \<Rightarrow> runtime \<Rightarrow> nat \<times> runtime" where
  "setTimeout d w =
     (next_timer w, w\<lparr>timers := (timers w)(next_timer w \<mapsto> d), next_timer := Suc (next_timer w)\<rparr>)"

definition clearTimeout :: "nat option \<Rightarrow> runtime \<Rightarrow> runtime" where
  "clearTimeout h w = (case h of None \<Rightarrow> w | Some t \<Rightarrow> w\<lparr>timers := (timers w)(t := None)\<rparr>)"

text \<open>
  The first half of \<open>getAutoCompleteResults\<close> in the runtime: \<open>axios.get\<close> is called, the
  call is counted and the caller waits.
\<close>

definition axios_get :: "axios_request \<Rightarrow> continuation \<Rightarrow> runtime \<Rightarrow> runtime" where
  "axios_get rq k w =
     w\<lparr>calls := Suc (calls w),
       inflight := (inflight w)(calls w \<mapsto> \<lparr> request = rq, continuation = k \<rparr>)\<rparr>"

definition handleDelay :: "QueuedRequest \<Rightarrow> runtime \<Rightarrow> runtime" where
  "handleDelay req w =
     (case queue w of
        None \<Rightarrow>
          (let (h, w') = setTimeout (delay w) (w\<lparr>queue := Some [req]\<rparr>) in w'\<lparr>timeout := Some h\<rparr>)
      | Some q \<Rightarrow> w\<lparr>queue := Some (q @ [req])\<rparr>)"

text \<open>\<open>_runAutoComplete\<close> up to its \<open>await\<close>, and from the \<open>await\<close> on with the outcome of the call.\<close>

definition runAutoComplete :: "string \<Rightarrow> AutoCompleteOptions \<Rightarrow> runtime \<Rightarrow> nat \<times> runtime" where
  "runAutoComplete addr opts w =
     (let (p, w') = new_promise w in
      (p, axios_get (request_of (params w') addr opts) (RunAutoComplete addr opts p) w'))"

definition runAutoComplete_resume ::
  "string \<Rightarrow> AutoCompleteOptions \<Rightarrow> nat \<Rightarrow> thrown + AutoCompleteResult list \<Rightarrow> runtime \<Rightarrow> runtime" where
  "runAutoComplete_resume addr opts p r w =
     (case r of
        Inr rs \<Rightarrow> resolve p rs w
      | Inl err \<Rightarrow>
          if err = TooManyRequestsError
          then (let (req, w') = createQueuedRequest addr opts w;
                    w'' = handleDelay req w'
                in settle p (Follows (promise req)) w'')
          else reject p err w)"

definition autoComplete :: "string \<Rightarrow> AutoCompleteOptions \<Rightarrow> runtime \<Rightarrow> nat \<times> runtime" where
  "autoComplete addr opts w =
     (case queue w of
        None \<Rightarrow> runAutoComplete addr opts w
      | Some q \<Rightarrow>
          (let (req, w') = createQueuedRequest addr opts w in
           (promise req, w'\<lparr>queue := Some (q @ [req])\<rparr>)))"

definition dispose :: "runtime \<Rightarrow> runtime" where
  "dispose w =
     clearTimeout (timeout w)
       (case queue w of
          None \<Rightarrow> w
        | Some q \<Rightarrow> fold (\<lambda>req. reject (promise req) (Error ''Clearing queue'')) q w)"

text \<open>
  The callback of the timer: every queued request calls \<open>axios.get\<close> in queue order, then
  the queue is reset. The field \<open>timeout\<close> is not assigned.
\<close>

definition drain :: "runtime \<Rightarrow> runtime" where
  "drain w =
     (case queue w of
        None \<Rightarrow> w
      | Some q \<Rightarrow>
          (fold (\<lambda>req. axios_get (request_of (params w) (address req) (options req))
                                 (DrainRequest req)) q w)\<lparr>queue := None\<rparr>)"

text \<open>The events of the runtime: a timer that is set elapses, a call of \<open>axios.get\<close> settles.\<close>

definition timer_fires :: "nat \<Rightarrow> runtime \<Rightarrow> runtime" where
  "timer_fires h w =
     (case timers w h of
        None \<Rightarrow> w
      | Some d \<Rightarrow> drain (w\<lparr>timers := (timers w)(h := None)\<rparr>))"

definition axios_settles ::
  "('d \<Rightarrow> string list + SearchResponse) \<Rightarrow> nat \<Rightarrow> 'd axios_outcome \<Rightarrow> runtime \<Rightarrow> runtime" where
  "axios_settles parseResponse n out w =
     (case inflight w n of
        None \<Rightarrow> w
      | Some c \<Rightarrow>
          (let w' = w\<lparr>inflight := (inflight w)(n := None)\<rparr>;
               r = getAutoCompleteResults_resume parseResponse out
           in case continuation c of
                RunAutoComplete addr opts p \<Rightarrow> runAutoComplete_resume addr opts p r w'
              | DrainRequest req \<Rightarrow>
                  (case r of
                     Inr rs \<Rightarrow> resolve (promise req) rs w'
                   | Inl err \<Rightarrow> reject (promise req) err w')))"

datatype 'd event =
    AutoComplete string AutoCompleteOptions
  | AxiosSettles nat "'d axios_outcome"
  | TimerFires nat
  | Dispose

definition step :: "('d \<Rightarrow> string list + SearchResponse) \<Rightarrow> 'd event \<Rightarrow> runtime \<Rightarrow> runtime" where
  "step parseResponse e w =
     (case e of
        AutoComplete addr opts \<Rightarrow> snd (autoComplete addr opts w)
      | AxiosSettles n out \<Rightarrow> axios_settles parseResponse n out w
      | TimerFires h \<Rightarrow> timer_fires h w
      | Dispose \<Rightarrow> dispose w)"

fun run :: "('d \<Rightarrow> string list + SearchResponse) \<Rightarrow> 'd event list \<Rightarrow> runtime \<Rightarrow> runtime" where
  "run parseResponse [] w = w"
| "run parseResponse (e # es) w = run parseResponse es (step parseResponse e w)"

text \<open>The states a client can be in: a new client, and any event from such a state.\<close>

inductive reachable :: "('d \<Rightarrow> string list + SearchResponse) \<Rightarrow> runtime \<Rightarrow> bool"
  for parseResponse :: "'d \<Rightarrow> string list + SearchResponse" where
  reachable_new: "new_FuzzySearch opts env = Inr w \<Longrightarrow> reachable parseResponse w"
| reachable_step: "reachable parseResponse w \<Longrightarrow> reachable parseResponse (step parseResponse e w)"

section \<open>Invariants of the runtime\<close>

text \<open>
  The timer and the queue: a queue that is set comes with a handle in the field \<open>timeout\<close>,
  and a timer that is set is the one of that field, with the queue set.
\<close>

definition timer_inv :: "runtime \<Rightarrow> bool" where
  "timer_inv w \<longleftrightarrow>
     (queue w \<noteq> None \<longrightarrow> FuzzySearch.timeout w \<noteq> None) \<and>
     (\<forall>h. timers w h \<noteq> None \<longrightarrow> FuzzySearch.timeout w = Some h \<and> queue w \<noteq> None)"

text \<open>The promise that a waiting call settles when \<open>axios.get\<close> settles.\<close>

fun cont_promise :: "continuation \<Rightarrow> nat" where
  "cont_promise (RunAutoComplete addr opts p) = p"
| "cont_promise (DrainRequest req) = promise req"

text \<open>Every promise that a waiting call or a queued request refers to has been created.\<close>

definition promises_wf :: "runtime \<Rightarrow> bool" where
  "promises_wf w \<longleftrightarrow>
     (\<forall>n c. inflight w n = Some c \<longrightarrow> cont_promise (continuation c) < length (promises w)) \<and>
     (\<forall>q. queue w = Some q \<longrightarrow> (\<forall>req \<in> set q. promise req < length (promises w)))"

text \<open>A queue that no timer will drain.\<close>

definition stale :: "runtime \<Rightarrow> bool" where
  "stale w \<longleftrightarrow> queue w \<noteq> None \<and> (\<forall>h. timers w h = None)"

text \<open>A promise that exists and that no waiting call settles.\<close>

definition unawaited :: "runtime \<Rightarrow> nat \<Rightarrow> bool" where
  "unawaited w p \<longleftrightarrow>
     p < length (promises w) \<and>
     (\<forall>n c. inflight w n = Some c \<longrightarrow> cont_promise (continuation c) \<noteq> p)"


text \<open>Nothing is queued, no timer is set and no call is waiting.\<close>

definition quiescent :: "runtime \<Rightarrow> bool" where
  "quiescent w \<longleftrightarrow> queue w = None \<and> (\<forall>h. timers w h = None) \<and> (\<forall>n. inflight w n = None)"

text \<open>
  Who holds which promise: a waiting call has a number below the number of calls made
  and its promise is pending; no two waiting calls and no two queued requests share a
  promise, and no waiting call shares one with a queued request; while a timer is set,
  the promises of the queued requests are pending.
\<close>

definition refs_inv :: "runtime \<Rightarrow> bool" where
  "refs_inv w \<longleftrightarrow>
     (\<forall>k c. inflight w k = Some c \<longrightarrow>
        k < calls w \<and> promises w ! cont_promise (continuation c) = Pending)
   \<and> (\<forall>k k' c c'. inflight w k = Some c \<and> inflight w k' = Some c'
         \<and> cont_promise (continuation c) = cont_promise (continuation c') \<longrightarrow> k = k')
   \<and> (\<forall>qs. queue w = Some qs \<longrightarrow>
          distinct (map promise qs)
        \<and> (\<forall>r \<in> set qs. \<forall>k c. inflight w k = Some c \<longrightarrow>
              cont_promise (continuation c) \<noteq> promise r)
        \<and> ((\<exists>h. timers w h \<noteq> None) \<longrightarrow> (\<forall>r \<in> set qs. promises w ! promise r = Pending)))"

text \<open>
  The three stages of a call that was answered with status 429, with \<open>p\<close> the promise
  that \<open>autoComplete\<close> returned and \<open>r\<close> the request made for it: the request is in the
  queue; the lookup of the request, the call number \<open>k\<close>, is waiting and nothing else
  refers to its promise; the promise of the request is settled and nothing refers to it.
\<close>

definition queued :: "nat \<Rightarrow> QueuedRequest \<Rightarrow> runtime \<Rightarrow> bool" where
  "queued p r w \<longleftrightarrow>
     (\<exists>qs. queue w = Some qs \<and> r \<in> set qs)
   \<and> p < length (promises w) \<and> promises w ! p = Follows (promise r)
   \<and> unawaited w (promise r) \<and> promises w ! promise r = Pending"

definition retrying :: "nat \<Rightarrow> QueuedRequest \<Rightarrow> nat \<Rightarrow> runtime \<Rightarrow> bool" where
  "retrying p r k w \<longleftrightarrow>
     (\<exists>rq. inflight w k = Some \<lparr> request = rq, continuation = DrainRequest r \<rparr>)
   \<and> (\<forall>j c. inflight w j = Some c \<and> cont_promise (continuation c) = promise r \<longrightarrow> j = k)
   \<and> (\<forall>qs. queue w = Some qs \<longrightarrow> promise r \<notin> promise ` set qs)
   \<and> p < length (promises w) \<and> promises w ! p = Follows (promise r)
   \<and> promise r < length (promises w) \<and> promises w ! promise r = Pending"

definition retried :: "nat \<Rightarrow> QueuedRequest \<Rightarrow> runtime \<Rightarrow> bool" where
  "retried p r w \<longleftrightarrow>
     unawaited w (promise r)
   \<and> (\<forall>qs. queue w = Some qs \<longrightarrow> promise r \<notin> promise ` set qs)
   \<and> p < length (promises w) \<and> promises w ! p = Follows (promise r)
   \<and> promises w ! promise r \<noteq> Pending"

section \<open>A client and a response\<close>

text \<open>
  The client of the unit tests, \<open>new FuzzySearch({ apiKey: 'test', delay: 500 })\<close>, calls made
  without options, and the fault \<open>{ response: { status: 429 } }\<close> of the mocked transport.
  In the examples a payload is given by what the validator makes of it.
\<close>

definition ex_options :: AutoCompleteOptions where
  "ex_options = \<lparr> signal = None, timeout = None \<rparr>"

definition ex_client :: runtime where
  "ex_client =
     \<lparr> delay = Num 500, params = \<lparr> key = ''test'', countrySet = ''AU'', limit = Num 100 \<rparr>,
       queue = None, timeout = None, promises = [], timers = Map.empty, next_timer = 0,
       calls = 0, inflight = Map.empty \<rparr>"

definition ex_parse :: "string list + SearchResponse \<Rightarrow> string list + SearchResponse" where
  "ex_parse d = d"

definition too_many_requests :: axios_fault where
  "too_many_requests = \<lparr> status = Some 429, message = [] \<rparr>"

text \<open>The client after one call that the API answered with status 429.\<close>

definition ex_draining :: runtime where
  "ex_draining =
     run ex_parse [AutoComplete ''Test address'' ex_options,
                   AxiosSettles 0 (Rejects too_many_requests)] ex_client"

text \<open>
  Two calls while idle, the first answered with status 429, then \<open>dispose\<close>, then the second
  answered with status 429.
\<close>

definition ex_stale :: runtime where
  "ex_stale =
     run ex_parse [AutoComplete ''Test address'' ex_options,
                   AutoComplete ''Test address 1'' ex_options,
                   AxiosSettles 0 (Rejects too_many_requests),
                   Dispose,
                   AxiosSettles 1 (Rejects too_many_requests)] ex_client"

text \<open>The valid response of the unit tests and the results expected for it.\<close>

definition ex_address :: "string \<Rightarrow> string \<Rightarrow> Address" where
  "ex_address street freeform =
     \<lparr> Address.streetNumber = None, streetName = street, municipalitySubdivision = None,
       municipalitySecondarySubdivision = None, neighbourhood = None,
       Address.municipality = None,
       countrySecondarySubdivision = None, countryTertiarySubdivision = None,
       countrySubdivision = None, postalCode = None, postalName = None,
       extendedPostalCode = None, Address.countryCode = ''AU'',
       Address.country = ''Australia'', countryCodeISO3 = ''AUS'',
       Address.freeformAddress = freeform, countrySubdivisionName = None,
       countrySubdivisionCode = None, localName = None \<rparr>"

definition VALID_RESPONSE :: SearchResponse where
  "VALID_RESPONSE =
     \<lparr> results =
         [\<lparr> result_id = ''test1'', SearchResult.address = ex_address ''Test street 1'' ''First test street'' \<rparr>,
          \<lparr> result_id = ''test2'', SearchResult.address = ex_address ''Test street 2'' ''Second test street'' \<rparr>] \<rparr>"

definition VALID_RESULTS :: "AutoCompleteResult list" where
  "VALID_RESULTS =
     [\<lparr> placeId = ''test1'', streetNumber = None, countryCode = ''AU'', country = ''Australia'',
        freeformAddress = ''First test street'', municipality = None \<rparr>,
      \<lparr> placeId = ''test2'', streetNumber = None, countryCode = ''AU'', country = ''Australia'',
        freeformAddress = ''Second test street'', municipality = None \<rparr>]"

section \<open>Properties of the parameter builder\<close>

lemma isInteger_Num_iff: "isInteger (Num r) \<longleftrightarrow> r \<in> \<int>"
  by (auto simp: Ints_def)

lemma clamp_cases:
  "Math_min (Math_max (Num 1) x) (Num 100) =
     (if x = NaN then NaN
      else if num_lt x (Num 1) then Num 1
      else if num_lt (Num 100) x then Num 100 else x)"
  by (cases x) (auto simp: Math_min_def Math_max_def num_lt_def)

lemma getParams_Inr_key:
  assumes "getParams opts env = Inr p"
  obtains k where "(case apiKey opts of Some k \<Rightarrow> Some k | None \<Rightarrow> env) = Some k" and "k \<noteq> []"
  using assms by (auto simp: getParams_def split: option.splits if_splits)

text \<open>
  Claim C6, as the code has it. The key is the explicit option whenever the option is
  given, also when it is the empty string, and the environment variable only when the
  option is not given; \<open>getParams\<close> fails, with the error of the missing key, exactly when
  the key chosen this way is undefined or empty. A key that is chosen and not empty is
  the key of the parameters.
\<close>

theorem getParams_key:
  "(\<forall>k. apiKey opts = Some k \<and> k \<noteq> [] \<longrightarrow> (\<exists>p. getParams opts env = Inr p \<and> key p = k))
 \<and> (\<forall>k. apiKey opts = None \<and> env = Some k \<and> k \<noteq> [] \<longrightarrow>
        (\<exists>p. getParams opts env = Inr p \<and> key p = k))
 \<and> (getParams opts env = Inl (Error ''Missing API key or TOMTOM_API_KEY environment variable'')
      \<longleftrightarrow> apiKey opts = Some [] \<or> (apiKey opts = None \<and> (env = None \<or> env = Some [])))
 \<and> (\<forall>e. getParams opts env = Inl e \<longrightarrow>
        e = Error ''Missing API key or TOMTOM_API_KEY environment variable'')"
  by (auto simp: getParams_def split: option.splits)

theorem getParams_key_witness:
  "apiKey \<lparr>apiKey = None, delay = None, limit = None\<rparr> = None
   \<and> Some ''envkey'' = Some ''envkey'' \<and> ''envkey'' \<noteq> []
   \<and> (\<exists>p. getParams \<lparr>apiKey = None, delay = None, limit = None\<rparr> (Some ''envkey'') = Inr p
          \<and> key p = ''envkey'')"
  using getParams_key [of "\<lparr>apiKey = None, delay = None, limit = None\<rparr>" "Some ''envkey''"]
  by simp

text \<open>
  Claim C6 as it is written fails: the environment yields a non-empty key, and
  \<open>getParams\<close> still fails, because the explicit option is the empty string.
\<close>

theorem getParams_empty_option_counterexample:
  "getParams \<lparr>apiKey = Some [], delay = None, limit = None\<rparr> (Some ''envkey'')
     = Inl (Error ''Missing API key or TOMTOM_API_KEY environment variable'')
   \<and> ''envkey'' \<noteq> []"
  by (simp add: getParams_def)

text \<open>
  The limit of the options never makes \<open>getParams\<close> fail. When the parameters are built:
  without a limit the built limit is 100; a limit below 1 becomes 1 and a limit above 100
  becomes 100; a limit from 1 to 100 is passed through.
\<close>

theorem getParams_limit_clamp:
  assumes "getParams opts env = Inr p"
  shows "(\<forall>l. \<exists>p'. getParams (opts\<lparr>FuzzySearchOptions.limit := l\<rparr>) env = Inr p')
       \<and> (FuzzySearchOptions.limit opts = None \<longrightarrow> limit p = Num 100)
       \<and> (\<forall>x. FuzzySearchOptions.limit opts = Some x \<longrightarrow>
             (num_lt x (Num 1) \<longrightarrow> limit p = Num 1)
           \<and> (num_lt (Num 100) x \<longrightarrow> limit p = Num 100)
           \<and> (num_le (Num 1) x \<and> num_le x (Num 100) \<longrightarrow> limit p = x))"
proof -
  from assms obtain k
    where k: "(case apiKey opts of Some k \<Rightarrow> Some k | None \<Rightarrow> env) = Some k" "k \<noteq> []"
    by (rule getParams_Inr_key)
  have a: "\<forall>l. \<exists>p'. getParams (opts\<lparr>FuzzySearchOptions.limit := l\<rparr>) env = Inr p'"
    using k by (simp add: getParams_def)
  have b: "FuzzySearchOptions.limit opts = None \<longrightarrow> limit p = Num 100"
    using assms k by (auto simp: getParams_def MAX_LIMIT_def split: option.splits)
  have c: "limit p = Math_min (Math_max (Num 1) x) (Num 100)"
    if "FuzzySearchOptions.limit opts = Some x" for x
    using assms k that by (auto simp: getParams_def MAX_LIMIT_def split: option.splits)
  have d: "(num_lt x (Num 1) \<longrightarrow> limit p = Num 1)
         \<and> (num_lt (Num 100) x \<longrightarrow> limit p = Num 100)
         \<and> (num_le (Num 1) x \<and> num_le x (Num 100) \<longrightarrow> limit p = x)"
    if "FuzzySearchOptions.limit opts = Some x" for x
    unfolding c[OF that] clamp_cases by (cases x) (auto simp: num_lt_def)
  from a b d show ?thesis by blast
qed

theorem getParams_limit_clamp_witness:
  "getParams \<lparr>apiKey = Some ''test'', delay = None, limit = Some (Num 200)\<rparr> None
     = Inr \<lparr>key = ''test'', countrySet = ''AU'', limit = Num 100\<rparr>
   \<and> num_lt (Num 100) (Num 200)
   \<and> limit \<lparr>key = ''test'', countrySet = ''AU'', limit = Num 100\<rparr> = Num 100
   \<and> (\<exists>p'. getParams \<lparr>apiKey = Some ''test'', delay = None, limit = Some (Num 0)\<rparr> None = Inr p')"
proof -
  have h: "getParams \<lparr>apiKey = Some ''test'', delay = None, limit = Some (Num 200)\<rparr> None
     = Inr \<lparr>key = ''test'', countrySet = ''AU'', limit = Num 100\<rparr>"
    by (simp add: getParams_def COUNTRY_CODE_def MAX_LIMIT_def Math_min_def Math_max_def)
  from getParams_limit_clamp [OF h]
  have "\<exists>p'. getParams (\<lparr>apiKey = Some ''test'', delay = None, limit = Some (Num 200)\<rparr>
                \<lparr>FuzzySearchOptions.limit := Some (Num 0)\<rparr>) None = Inr p'"
    by blast
  then show ?thesis using h by (simp add: num_lt_def)
qed

text \<open>
  Claim C8 against the code. The limit \<open>NaN\<close> is neither below 1 nor above 100 nor from 1
  to 100: \<open>Math.max\<close> and \<open>Math.min\<close> return \<open>NaN\<close>, and the parameters are built with the
  limit \<open>NaN\<close>, which is not clamped to a bound.
\<close>

theorem getParams_limit_NaN:
  "getParams \<lparr>apiKey = Some ''test'', delay = None, limit = Some NaN\<rparr> None
     = Inr \<lparr>key = ''test'', countrySet = ''AU'', limit = NaN\<rparr>
   \<and> Math_min (Math_max (Num 1) NaN) MAX_LIMIT = NaN
   \<and> \<not> num_le (Num 1) NaN \<and> \<not> num_le NaN (Num 100)
   \<and> NaN \<noteq> Num 1 \<and> NaN \<noteq> Num 100"
  by (simp add: getParams_def COUNTRY_CODE_def MAX_LIMIT_def Math_min_def Math_max_def)

text \<open>
  Claim C9, as the code has it. The country filter of the built parameters is the
  constant \<open>AU\<close>. Unless the caller's limit is \<open>NaN\<close>, the built limit lies between 1 and
  100. The code does not round: the built limit is an integer when the caller gave no
  limit or an integer.
\<close>

theorem getParams_limit_range:
  assumes "getParams opts env = Inr p"
  shows "countrySet p = ''AU''
       \<and> (FuzzySearchOptions.limit opts \<noteq> Some NaN \<longrightarrow>
            num_le (Num 1) (limit p) \<and> num_le (limit p) (Num 100))
       \<and> ((\<forall>x. FuzzySearchOptions.limit opts = Some x \<longrightarrow> isInteger x) \<longrightarrow> isInteger (limit p))"
proof -
  from assms obtain k
    where k: "(case apiKey opts of Some k \<Rightarrow> Some k | None \<Rightarrow> env) = Some k" "k \<noteq> []"
    by (rule getParams_Inr_key)
  have p: "p = \<lparr> key = k, countrySet = COUNTRY_CODE,
                limit = (case FuzzySearchOptions.limit opts of None \<Rightarrow> MAX_LIMIT
                         | Some l \<Rightarrow> Math_min (Math_max (Num 1) l) MAX_LIMIT) \<rparr>"
    using assms k by (auto simp: getParams_def split: option.splits)
  show ?thesis
  proof (cases "FuzzySearchOptions.limit opts")
    case None
    then show ?thesis by (simp add: p COUNTRY_CODE_def MAX_LIMIT_def)
  next
    case (Some x)
    then show ?thesis
      by (cases x) (auto simp: p COUNTRY_CODE_def MAX_LIMIT_def clamp_cases num_lt_def)
  qed
qed

theorem getParams_limit_range_witness:
  "getParams \<lparr>apiKey = Some ''test'', delay = None, limit = Some (Num 200)\<rparr> None
     = Inr \<lparr>key = ''test'', countrySet = ''AU'', limit = Num 100\<rparr>
   \<and> Some (Num 200) \<noteq> Some NaN \<and> isInteger (Num 200)
   \<and> num_le (Num 1) (Num 100) \<and> num_le (Num 100) (Num 100) \<and> isInteger (Num 100)"
proof -
  have h: "getParams \<lparr>apiKey = Some ''test'', delay = None, limit = Some (Num 200)\<rparr> None
     = Inr \<lparr>key = ''test'', countrySet = ''AU'', limit = Num 100\<rparr>"
    by (simp add: getParams_def COUNTRY_CODE_def MAX_LIMIT_def Math_min_def Math_max_def)
  show ?thesis using h getParams_limit_range [OF h] by simp
qed

text \<open>
  Claim C9 as it is written fails: the limit 2.5 is accepted and built as it is, and it
  is not an integer. The limit \<open>NaN\<close> is built as \<open>NaN\<close>, which is not in any range.
\<close>

theorem getParams_limit_fraction_counterexample:
  "getParams \<lparr>apiKey = Some ''test'', delay = None, limit = Some (Num (5 / 2))\<rparr> None
     = Inr \<lparr>key = ''test'', countrySet = ''AU'', limit = Num (5 / 2)\<rparr>
   \<and> \<not> isInteger (Num (5 / 2))
   \<and> getParams \<lparr>apiKey = Some ''test'', delay = None, limit = Some NaN\<rparr> None
     = Inr \<lparr>key = ''test'', countrySet = ''AU'', limit = NaN\<rparr>
   \<and> \<not> num_le (Num 1) NaN"
  by (simp add: getParams_def COUNTRY_CODE_def MAX_LIMIT_def Math_min_def Math_max_def
        isInteger_Num_iff del: isInteger.simps)

section \<open>Properties of the request executor\<close>

text \<open>
  Claim C5. A lookup whose response fails validation fails with the \<open>ValiError\<close> of the
  validator, with the same issues; a transport fault with status 429 fails with
  \<open>TooManyRequestsError\<close>; any other transport fault fails with that fault as it is. In the
  client, a failure other than \<open>TooManyRequestsError\<close> rejects the promise of the call at
  once: no call is made, nothing is queued and no timer is set.
\<close>

theorem executor_failures:
  "(\<forall>data issues. transport (request_of ps addr opts) = Resolves data \<and> parseResponse data = Inl issues
      \<longrightarrow> getAutoCompleteResults parseResponse transport ps addr opts = Inl (ValiError issues))
 \<and> (\<forall>err. transport (request_of ps addr opts) = Rejects err \<and> status err = Some 429
      \<longrightarrow> getAutoCompleteResults parseResponse transport ps addr opts = Inl TooManyRequestsError)
 \<and> (\<forall>err. transport (request_of ps addr opts) = Rejects err \<and> status err \<noteq> Some 429
      \<longrightarrow> getAutoCompleteResults parseResponse transport ps addr opts = Inl (TransportError err))
 \<and> (\<forall>n rq p out e.
        inflight w n = Some \<lparr> request = rq, continuation = RunAutoComplete addr opts p \<rparr>
      \<and> getAutoCompleteResults_resume parseResponse out = Inl e \<and> e \<noteq> TooManyRequestsError
      \<and> p < length (promises w) \<and> promises w ! p = Pending
      \<longrightarrow> observed (axios_settles parseResponse n out w) p = Rejected e
        \<and> calls (axios_settles parseResponse n out w) = calls w
        \<and> queue (axios_settles parseResponse n out w) = queue w
        \<and> timers (axios_settles parseResponse n out w) = timers w
        \<and> inflight (axios_settles parseResponse n out w) = (inflight w)(n := None))"
  by (auto simp: getAutoCompleteResults_def getAutoCompleteResults_resume_def axios_settles_def
      runAutoComplete_resume_def reject_def settle_def observed_def)

subsection \<open>The example client\<close>

lemmas client_defs =
  step_def autoComplete_def runAutoComplete_def runAutoComplete_resume_def new_promise_def
  createQueuedRequest_def handleDelay_def setTimeout_def clearTimeout_def axios_get_def
  axios_settles_def getAutoCompleteResults_resume_def timer_fires_def drain_def dispose_def
  settle_def resolve_def reject_def observed_def

lemma ex_client_new:
  "new_FuzzySearch \<lparr>apiKey = Some ''test'', delay = Some (Num 500), limit = None\<rparr> None
     = Inr ex_client"
  by (simp add: new_FuzzySearch_def getParams_def ex_client_def COUNTRY_CODE_def MAX_LIMIT_def)

lemma reachable_run: "reachable parseResponse w \<Longrightarrow> reachable parseResponse (run parseResponse es w)"
  by (induction es arbitrary: w) (auto intro: reachable_step)

lemma reachable_ex_draining: "reachable ex_parse ex_draining"
  unfolding ex_draining_def
  by (intro reachable_run reachable_new) (rule ex_client_new)

lemma ex_draining_eq:
  "ex_draining =
     \<lparr> delay = Num 500, params = \<lparr> key = ''test'', countrySet = ''AU'', limit = Num 100 \<rparr>,
       queue = Some [\<lparr> address = ''Test address'', options = ex_options, promise = 1 \<rparr>],
       timeout = Some 0, promises = [Follows 1, Pending],
       timers = [0 \<mapsto> Num 500], next_timer = 1,
       calls = 1, inflight = Map.empty \<rparr>"
  by (simp add: ex_draining_def ex_client_def too_many_requests_def client_defs)

theorem executor_failures_witness:
  "getAutoCompleteResults ex_parse (\<lambda>rq. Resolves (Inl [''Invalid type''])) (params ex_client)
        ''Test address'' ex_options = Inl (ValiError [''Invalid type''])
   \<and> getAutoCompleteResults ex_parse (\<lambda>rq. Rejects too_many_requests) (params ex_client)
        ''Test address'' ex_options = Inl TooManyRequestsError
   \<and> getAutoCompleteResults ex_parse (\<lambda>rq. Rejects \<lparr> status = Some 400, message = ''Failed'' \<rparr>)
        (params ex_client) ''Test address'' ex_options
        = Inl (TransportError \<lparr> status = Some 400, message = ''Failed'' \<rparr>)
   \<and> observed (run ex_parse [AutoComplete ''Test address'' ex_options,
                             AxiosSettles 0 (Resolves (Inl [''Invalid type'']))] ex_client) 0
        = Rejected (ValiError [''Invalid type''])
   \<and> calls (run ex_parse [AutoComplete ''Test address'' ex_options,
                          AxiosSettles 0 (Resolves (Inl [''Invalid type'']))] ex_client) = 1"
proof -
  let ?w = "snd (autoComplete ''Test address'' ex_options ex_client)"
  have w: "inflight ?w 0 = Some \<lparr> request = request_of (params ex_client) ''Test address'' ex_options,
                                 continuation = RunAutoComplete ''Test address'' ex_options 0 \<rparr>
           \<and> 0 < length (promises ?w) \<and> promises ?w ! 0 = Pending \<and> calls ?w = 1"
    by (simp add: ex_client_def autoComplete_def runAutoComplete_def new_promise_def axios_get_def)
  have r: "getAutoCompleteResults_resume ex_parse (Resolves (Inl [''Invalid type'']))
             = Inl (ValiError [''Invalid type''])"
    by (simp add: getAutoCompleteResults_resume_def ex_parse_def)
  note e1 = executor_failures [of "\<lambda>rq. Resolves (Inl [''Invalid type''])" "params ex_client"
      "''Test address''" ex_options ex_parse ?w]
  note e2 = executor_failures [of "\<lambda>rq. Rejects too_many_requests" "params ex_client"
      "''Test address''" ex_options ex_parse ?w]
  note e3 = executor_failures [of "\<lambda>rq. Rejects \<lparr> status = Some 400, message = ''Failed'' \<rparr>"
      "params ex_client" "''Test address''" ex_options ex_parse ?w]
  have a: "getAutoCompleteResults ex_parse (\<lambda>rq. Resolves (Inl [''Invalid type''])) (params ex_client)
        ''Test address'' ex_options = Inl (ValiError [''Invalid type''])"
    using e1 by (simp add: ex_parse_def)
  have b: "getAutoCompleteResults ex_parse (\<lambda>rq. Rejects too_many_requests) (params ex_client)
        ''Test address'' ex_options = Inl TooManyRequestsError"
    using e2 by (simp add: too_many_requests_def)
  have c: "getAutoCompleteResults ex_parse (\<lambda>rq. Rejects \<lparr> status = Some 400, message = ''Failed'' \<rparr>)
        (params ex_client) ''Test address'' ex_options
        = Inl (TransportError \<lparr> status = Some 400, message = ''Failed'' \<rparr>)"
    using e3 by simp
  from e1 w r
  have d: "observed (axios_settles ex_parse 0 (Resolves (Inl [''Invalid type''])) ?w) 0
             = Rejected (ValiError [''Invalid type''])
         \<and> calls (axios_settles ex_parse 0 (Resolves (Inl [''Invalid type''])) ?w) = calls ?w"
    by blast
  from a b c d w show ?thesis by (simp add: step_def)
qed

text \<open>
  Claim C7. A lookup whose response validates returns one result for each validated
  record, in the order of the response; each is the record mapped by
  \<open>toAutoCompleteResult\<close>, and a street number or municipality that the record does not
  have is absent in the result, not an empty string.
\<close>

theorem results_mapped_in_order:
  assumes "transport (request_of ps addr opts) = Resolves data"
    and "parseResponse data = Inr res"
  shows "\<exists>out. getAutoCompleteResults parseResponse transport ps addr opts = Inr out
          \<and> length out = length (results res)
          \<and> (\<forall>i<length (results res).
                out ! i = toAutoCompleteResult (results res ! i)
              \<and> placeId (out ! i) = result_id (results res ! i)
              \<and> streetNumber (out ! i) = Address.streetNumber (SearchResult.address (results res ! i))
              \<and> countryCode (out ! i) = Address.countryCode (SearchResult.address (results res ! i))
              \<and> country (out ! i) = Address.country (SearchResult.address (results res ! i))
              \<and> freeformAddress (out ! i)
                  = Address.freeformAddress (SearchResult.address (results res ! i))
              \<and> municipality (out ! i) = Address.municipality (SearchResult.address (results res ! i))
              \<and> (Address.streetNumber (SearchResult.address (results res ! i)) = None
                   \<longrightarrow> streetNumber (out ! i) = None \<and> streetNumber (out ! i) \<noteq> Some [])
              \<and> (Address.municipality (SearchResult.address (results res ! i)) = None
                   \<longrightarrow> municipality (out ! i) = None \<and> municipality (out ! i) \<noteq> Some []))"
  using assms
  by (simp add: getAutoCompleteResults_def getAutoCompleteResults_resume_def
      toAutoCompleteResult_def Let_def)

lemma VALID_RESULTS_eq: "map toAutoCompleteResult (results VALID_RESPONSE) = VALID_RESULTS"
  by (simp add: VALID_RESPONSE_def VALID_RESULTS_def toAutoCompleteResult_def ex_address_def)

theorem results_mapped_in_order_witness:
  "ex_parse (Inr VALID_RESPONSE) = Inr VALID_RESPONSE
   \<and> getAutoCompleteResults ex_parse (\<lambda>rq. Resolves (Inr VALID_RESPONSE)) (params ex_client)
        ''Test address'' ex_options = Inr VALID_RESULTS
   \<and> Address.streetNumber (SearchResult.address (results VALID_RESPONSE ! 1)) = None
   \<and> streetNumber (VALID_RESULTS ! 1) = None"
proof -
  have p: "ex_parse (Inr VALID_RESPONSE) = Inr VALID_RESPONSE" by (simp add: ex_parse_def)
  note r = results_mapped_in_order [where transport = "\<lambda>rq. Resolves (Inr VALID_RESPONSE)"
      and ps = "params ex_client" and addr = "''Test address''" and opts = ex_options
      and parseResponse = ex_parse and data = "Inr VALID_RESPONSE" and res = VALID_RESPONSE]
  from r [OF refl p]
  obtain out where o: "getAutoCompleteResults ex_parse (\<lambda>rq. Resolves (Inr VALID_RESPONSE))
        (params ex_client) ''Test address'' ex_options = Inr out"
    and l: "length out = length (results VALID_RESPONSE)"
    and e: "\<forall>i<length (results VALID_RESPONSE). out ! i = toAutoCompleteResult (results VALID_RESPONSE ! i)"
    by blast
  have "out = map toAutoCompleteResult (results VALID_RESPONSE)"
    using l e by (simp add: list_eq_iff_nth_eq)
  then have "out = VALID_RESULTS" by (simp add: VALID_RESULTS_eq)
  with o p show ?thesis
    by (simp add: VALID_RESPONSE_def VALID_RESULTS_def ex_address_def)
qed

section \<open>Properties of the client\<close>

subsection \<open>Fields that the operations leave alone\<close>

lemma settle_fields [simp]:
  "queue (settle p v w) = queue w"
  "FuzzySearch.timeout (settle p v w) = FuzzySearch.timeout w"
  "timers (settle p v w) = timers w"
  "calls (settle p v w) = calls w"
  "inflight (settle p v w) = inflight w"
  "params (settle p v w) = params w"
  "FuzzySearch.delay (settle p v w) = FuzzySearch.delay w"
  "next_timer (settle p v w) = next_timer w"
  "length (promises (settle p v w)) = length (promises w)"
  by (simp_all add: settle_def)

lemma settle_other: "p' \<noteq> p \<Longrightarrow> promises (settle p v w) ! p' = promises w ! p'"
  by (simp add: settle_def)

lemma settle_nth:
  "promises (settle p v w) ! p' =
     (if p' = p \<and> p < length (promises w) \<and> promises w ! p = Pending then v else promises w ! p')"
  by (simp add: settle_def)

lemma fold_reject_fields [simp]:
  "queue (fold (\<lambda>req. reject (promise req) e) q w) = queue w"
  "FuzzySearch.timeout (fold (\<lambda>req. reject (promise req) e) q w) = FuzzySearch.timeout w"
  "timers (fold (\<lambda>req. reject (promise req) e) q w) = timers w"
  "calls (fold (\<lambda>req. reject (promise req) e) q w) = calls w"
  "inflight (fold (\<lambda>req. reject (promise req) e) q w) = inflight w"
  "params (fold (\<lambda>req. reject (promise req) e) q w) = params w"
  "FuzzySearch.delay (fold (\<lambda>req. reject (promise req) e) q w) = FuzzySearch.delay w"
  "next_timer (fold (\<lambda>req. reject (promise req) e) q w) = next_timer w"
  "length (promises (fold (\<lambda>req. reject (promise req) e) q w)) = length (promises w)"
  by (induction q arbitrary: w; simp add: reject_def)+

lemma fold_reject_nth:
  "promises (fold (\<lambda>req. reject (promise req) e) q w) ! p =
     (if p \<in> promise ` set q \<and> p < length (promises w) \<and> promises w ! p = Pending
      then Rejected e else promises w ! p)"
  by (induction q arbitrary: w) (auto simp: reject_def settle_nth)

lemma axios_get_fields [simp]:
  "queue (axios_get rq k w) = queue w"
  "FuzzySearch.timeout (axios_get rq k w) = FuzzySearch.timeout w"
  "timers (axios_get rq k w) = timers w"
  "promises (axios_get rq k w) = promises w"
  "params (axios_get rq k w) = params w"
  "FuzzySearch.delay (axios_get rq k w) = FuzzySearch.delay w"
  "next_timer (axios_get rq k w) = next_timer w"
  "calls (axios_get rq k w) = Suc (calls w)"
  by (simp_all add: axios_get_def)

lemma fold_axios_get_fields [simp]:
  "queue (fold (\<lambda>req. axios_get (f req) (g req)) q w) = queue w"
  "FuzzySearch.timeout (fold (\<lambda>req. axios_get (f req) (g req)) q w) = FuzzySearch.timeout w"
  "timers (fold (\<lambda>req. axios_get (f req) (g req)) q w) = timers w"
  "promises (fold (\<lambda>req. axios_get (f req) (g req)) q w) = promises w"
  "params (fold (\<lambda>req. axios_get (f req) (g req)) q w) = params w"
  "FuzzySearch.delay (fold (\<lambda>req. axios_get (f req) (g req)) q w) = FuzzySearch.delay w"
  "next_timer (fold (\<lambda>req. axios_get (f req) (g req)) q w) = next_timer w"
  "calls (fold (\<lambda>req. axios_get (f req) (g req)) q w) = calls w + length q"
  by (induction q arbitrary: w; simp)+

lemma fold_axios_get_inflight:
  "inflight (fold (\<lambda>req. axios_get (f req) (g req)) q w) n =
     (if calls w \<le> n \<and> n < calls w + length q
      then Some \<lparr> request = f (q ! (n - calls w)), continuation = g (q ! (n - calls w)) \<rparr>
      else inflight w n)"
proof (induction q arbitrary: w)
  case Nil
  then show ?case by auto
next
  case (Cons a q)
  show ?case
    by (simp add: Cons.IH) (auto simp: axios_get_def nth_Cons' Suc_diff_le)
qed


subsection \<open>The timer and the queue\<close>

lemma timer_inv_new: "new_FuzzySearch opts env = Inr w \<Longrightarrow> timer_inv w"
  by (auto simp: new_FuzzySearch_def timer_inv_def split: sum.splits)

lemma timer_inv_autoComplete: "timer_inv w \<Longrightarrow> timer_inv (snd (autoComplete addr opts w))"
  by (auto simp: timer_inv_def autoComplete_def runAutoComplete_def new_promise_def
        createQueuedRequest_def split: option.splits)

lemma timer_inv_handleDelay: "timer_inv w \<Longrightarrow> timer_inv (handleDelay req w)"
  by (auto simp: timer_inv_def handleDelay_def setTimeout_def split: option.splits)

lemma timer_inv_settle: "timer_inv (settle p v w) = timer_inv w"
  by (simp add: timer_inv_def)

lemma timer_inv_promises: "timer_inv (w\<lparr>promises := ps\<rparr>) = timer_inv w"
  by (simp add: timer_inv_def)

lemma timer_inv_inflight: "timer_inv (w\<lparr>inflight := m\<rparr>) = timer_inv w"
  by (simp add: timer_inv_def)

lemma timer_inv_axios_settles: "timer_inv w \<Longrightarrow> timer_inv (axios_settles parseResponse n out w)"
  by (auto simp: axios_settles_def runAutoComplete_resume_def createQueuedRequest_def
        new_promise_def resolve_def reject_def timer_inv_settle timer_inv_promises
        timer_inv_inflight Let_def
        intro!: timer_inv_handleDelay split: option.splits continuation.splits sum.splits)

lemma timer_inv_unique:
  assumes "timer_inv w" and "timers w h = Some d" and "h' \<noteq> h"
  shows "timers w h' = None"
proof (rule ccontr)
  assume "timers w h' \<noteq> None"
  with assms(1) have "FuzzySearch.timeout w = Some h'" by (simp add: timer_inv_def)
  moreover from assms(1,2) have "FuzzySearch.timeout w = Some h" by (simp add: timer_inv_def)
  ultimately show False using assms(3) by simp
qed

lemma timer_inv_timer_fires:
  assumes "timer_inv w"
  shows "timer_inv (timer_fires h w)"
proof (cases "timers w h")
  case None
  then show ?thesis using assms by (simp add: timer_fires_def)
next
  case (Some d)
  have "timers w h' = None" if "h' \<noteq> h" for h'
    using timer_inv_unique [OF assms Some that] .
  then show ?thesis
    using Some by (auto simp: timer_inv_def timer_fires_def drain_def split: option.splits)
qed

lemma timer_inv_dispose: "timer_inv w \<Longrightarrow> timer_inv (dispose w)"
  by (auto simp: timer_inv_def dispose_def clearTimeout_def split: option.splits)

lemma timer_inv_step: "timer_inv w \<Longrightarrow> timer_inv (step parseResponse e w)"
  by (cases e) (simp_all add: step_def timer_inv_autoComplete timer_inv_axios_settles
      timer_inv_timer_fires timer_inv_dispose)

lemma reachable_timer_inv: "reachable parseResponse w \<Longrightarrow> timer_inv w"
  by (induction rule: reachable.induct) (auto intro: timer_inv_new timer_inv_step)

subsection \<open>The promises of waiting calls and queued requests\<close>

lemma promises_wf_new: "new_FuzzySearch opts env = Inr w \<Longrightarrow> promises_wf w"
  by (auto simp: new_FuzzySearch_def promises_wf_def split: sum.splits)

lemma promises_wf_autoComplete: "promises_wf w \<Longrightarrow> promises_wf (snd (autoComplete addr opts w))"
  by (auto simp: promises_wf_def autoComplete_def runAutoComplete_def new_promise_def
        axios_get_def createQueuedRequest_def less_Suc_eq split: option.splits)

lemma promises_wf_settle: "promises_wf (settle p v w) = promises_wf w"
  by (simp add: promises_wf_def)

lemma promises_wf_remove: "promises_wf w \<Longrightarrow> promises_wf (w\<lparr>inflight := (inflight w)(n := None)\<rparr>)"
  by (auto simp: promises_wf_def)

lemma promises_wf_enqueue:
  "promises_wf w \<Longrightarrow>
   promises_wf (handleDelay (fst (createQueuedRequest addr opts w)) (snd (createQueuedRequest addr opts w)))"
  by (auto simp: promises_wf_def handleDelay_def setTimeout_def createQueuedRequest_def
        new_promise_def less_Suc_eq split: option.splits)

lemma promises_wf_axios_settles: 
  assumes "promises_wf w"
  shows "promises_wf (axios_settles parseResponse n out w)"
proof (cases "inflight w n")
  case None
  then show ?thesis using assms by (simp add: axios_settles_def)
next
  case (Some c)
  let ?w = "w\<lparr>inflight := (inflight w)(n := None)\<rparr>"
  have wf: "promises_wf ?w" using assms by (rule promises_wf_remove)
  show ?thesis
    using Some promises_wf_enqueue [OF wf]
    by (auto simp: axios_settles_def runAutoComplete_resume_def resolve_def reject_def
        promises_wf_settle wf Let_def split_beta
        split: continuation.splits sum.splits)
qed

lemma promises_wf_timer_fires: "promises_wf w \<Longrightarrow> promises_wf (timer_fires h w)"
  by (auto simp: promises_wf_def timer_fires_def drain_def fold_axios_get_inflight
        split: option.splits if_splits)

lemma promises_wf_dispose: "promises_wf w \<Longrightarrow> promises_wf (dispose w)"
  by (auto simp: promises_wf_def dispose_def clearTimeout_def split: option.splits)

lemma promises_wf_step: "promises_wf w \<Longrightarrow> promises_wf (step parseResponse e w)"
  by (cases e) (simp_all add: step_def promises_wf_autoComplete promises_wf_axios_settles
      promises_wf_timer_fires promises_wf_dispose)

lemma reachable_promises_wf: "reachable parseResponse w \<Longrightarrow> promises_wf w"
  by (induction rule: reachable.induct) (auto intro: promises_wf_new promises_wf_step)

subsection \<open>A queue without a timer\<close>


lemma stale_handleDelay: "stale w \<Longrightarrow> stale (handleDelay req w)"
  by (auto simp: stale_def handleDelay_def)






lemma dispose_stale:
  assumes "timer_inv w" and "queue w \<noteq> None"
  shows "stale (dispose w)"
proof -
  have "timers (dispose w) h = None" for h
    using assms by (cases "timers w h") (auto simp: timer_inv_def dispose_def clearTimeout_def)
  moreover have "queue (dispose w) = queue w"
    by (simp add: dispose_def clearTimeout_def split: option.splits)
  ultimately show ?thesis using assms(2) by (simp add: stale_def)
qed

lemma dispose_queue: "queue (dispose w) = queue w"
  by (simp add: dispose_def clearTimeout_def split: option.splits)







subsection \<open>A client at rest\<close>

lemma quiescent_step:
  assumes "quiescent w" and "\<forall>addr opts. e \<noteq> AutoComplete addr opts"
  shows "quiescent (step parseResponse e w)"
    and "calls (step parseResponse e w) = calls w"
    and "promises (step parseResponse e w) = promises w"
  using assms
  by (cases e; simp add: quiescent_def step_def axios_settles_def timer_fires_def dispose_def
      clearTimeout_def split: option.splits)+

lemma quiescent_run:
  assumes "quiescent w" and "\<forall>e \<in> set es. \<forall>addr opts. e \<noteq> AutoComplete addr opts"
  shows "calls (run parseResponse es w) = calls w \<and> promises (run parseResponse es w) = promises w"
  using assms
proof (induction es arbitrary: w)
  case Nil
  then show ?case by simp
next
  case (Cons e es)
  from Cons.prems(2) have e: "\<forall>addr opts. e \<noteq> AutoComplete addr opts" by simp
  note q = quiescent_step [OF Cons.prems(1) e, where parseResponse = parseResponse]
  from Cons.IH [OF q(1)] Cons.prems(2) q(2,3) show ?case by simp
qed

lemma observed_cong: "promises w' = promises w \<Longrightarrow> observed w' p = observed w p"
  by (auto simp: observed_def split: pstate.splits)

lemma new_FuzzySearch_Inr:
  assumes "new_FuzzySearch fopts env = Inr w0"
  obtains d ps where
    "w0 = \<lparr> delay = d, params = ps, queue = None, timeout = None,
            promises = [], timers = Map.empty, next_timer = 0, calls = 0,
            inflight = Map.empty \<rparr>"
  using assms by (auto simp: new_FuzzySearch_def split: sum.splits)

subsection \<open>What each operation does\<close>

lemma autoComplete_idle:
  "queue w = None \<Longrightarrow>
   autoComplete addr opts w =
     (length (promises w),
      w\<lparr> promises := promises w @ [Pending], calls := Suc (calls w),
         inflight := (inflight w)(calls w \<mapsto>
            \<lparr> request = request_of (params w) addr opts,
              continuation = RunAutoComplete addr opts (length (promises w)) \<rparr>) \<rparr>)"
  by (simp add: autoComplete_def runAutoComplete_def new_promise_def axios_get_def)

lemma autoComplete_draining:
  "queue w = Some qs \<Longrightarrow>
   autoComplete addr opts w =
     (length (promises w),
      w\<lparr> promises := promises w @ [Pending],
         queue := Some (qs @ [\<lparr> address = addr, options = opts,
                                promise = length (promises w) \<rparr>]) \<rparr>)"
  by (simp add: autoComplete_def createQueuedRequest_def new_promise_def)

lemma handleDelay_idle:
  "queue w = None \<Longrightarrow>
   handleDelay req w =
     w\<lparr> queue := Some [req], timers := (timers w)(next_timer w \<mapsto> FuzzySearch.delay w),
        next_timer := Suc (next_timer w), timeout := Some (next_timer w) \<rparr>"
  by (simp add: handleDelay_def setTimeout_def)

lemma handleDelay_draining:
  "queue w = Some qs \<Longrightarrow> handleDelay req w = w\<lparr> queue := Some (qs @ [req]) \<rparr>"
  by (simp add: handleDelay_def)

lemma axios_settles_none: "inflight w n = None \<Longrightarrow> axios_settles parseResponse n out w = w"
  by (simp add: axios_settles_def)

lemma axios_settles_drain:
  assumes "inflight w n = Some c" and "continuation c = DrainRequest req"
  shows "axios_settles parseResponse n out w =
           settle (promise req)
             (case getAutoCompleteResults_resume parseResponse out of
                Inr rs \<Rightarrow> Fulfilled rs | Inl e \<Rightarrow> Rejected e)
             (w\<lparr> inflight := (inflight w)(n := None) \<rparr>)"
  using assms by (simp add: axios_settles_def resolve_def reject_def Let_def split: sum.splits)

lemma axios_settles_final:
  assumes "inflight w n = Some c" and "continuation c = RunAutoComplete addr opts p"
    and "getAutoCompleteResults_resume parseResponse out \<noteq> Inl TooManyRequestsError"
  shows "axios_settles parseResponse n out w =
           settle p
             (case getAutoCompleteResults_resume parseResponse out of
                Inr rs \<Rightarrow> Fulfilled rs | Inl e \<Rightarrow> Rejected e)
             (w\<lparr> inflight := (inflight w)(n := None) \<rparr>)"
  using assms
  by (simp add: axios_settles_def runAutoComplete_resume_def resolve_def reject_def Let_def
      split: sum.splits)

lemma axios_settles_delayed:
  assumes "inflight w n = Some c" and "continuation c = RunAutoComplete addr opts p"
    and "getAutoCompleteResults_resume parseResponse out = Inl TooManyRequestsError"
  shows "axios_settles parseResponse n out w =
           settle p (Follows (length (promises w)))
             (handleDelay \<lparr> address = addr, options = opts, promise = length (promises w) \<rparr>
                (w\<lparr> inflight := (inflight w)(n := None),
                    promises := promises w @ [Pending] \<rparr>))"
  using assms
  by (simp add: axios_settles_def runAutoComplete_resume_def createQueuedRequest_def
      new_promise_def Let_def)

lemma timer_fires_none: "timers w h = None \<Longrightarrow> timer_fires h w = w"
  by (simp add: timer_fires_def)

lemma timer_fires_drain:
  assumes "timers w h = Some d" and "queue w = Some qs"
  shows "timer_fires h w =
           (fold (\<lambda>req. axios_get (request_of (params w) (address req) (options req))
                                   (DrainRequest req)) qs
              (w\<lparr> timers := (timers w)(h := None) \<rparr>))\<lparr> queue := None \<rparr>"
  using assms by (simp add: timer_fires_def drain_def)

lemma timer_fires_idle:
  assumes "timers w h = Some d" and "queue w = None"
  shows "timer_fires h w = w\<lparr> timers := (timers w)(h := None) \<rparr>"
  using assms by (simp add: timer_fires_def drain_def)

lemma refs_inv_autoComplete:
  assumes "refs_inv w" and "promises_wf w"
  shows "refs_inv (snd (autoComplete addr opts w))"
proof (cases "queue w")
  case None
  have lt: "cont_promise (continuation c) < length (promises w)" if "inflight w k = Some c" for k c
    using assms(2) that by (auto simp: promises_wf_def)
  show ?thesis
    using assms(1) None lt
    by (auto simp: autoComplete_idle refs_inv_def nth_append less_Suc_eq
        dest: lt)
next
  case (Some qs)
  have lt: "cont_promise (continuation c) < length (promises w)" if "inflight w k = Some c" for k c
    using assms(2) that by (auto simp: promises_wf_def)
  have lq: "promise r < length (promises w)" if "r \<in> set qs" for r
    using assms(2) Some that by (auto simp: promises_wf_def)
  show ?thesis
    using assms(1) Some
    by (auto simp: autoComplete_draining refs_inv_def nth_append dest: lt lq)
qed

subsection \<open>Who holds which promise\<close>

lemma refs_inv_settle:
  assumes "refs_inv w" and "inflight w n = Some c" and "cont_promise (continuation c) = p"
    and "v \<noteq> Pending"
  shows "refs_inv (settle p v (w\<lparr> inflight := (inflight w)(n := None) \<rparr>))"
proof -
  have other: "cont_promise (continuation c') \<noteq> p" if "inflight w k = Some c'" "k \<noteq> n" for k c'
    using assms(1,2,3) that unfolding refs_inv_def by blast
  have notq: "promise r \<noteq> p" if "queue w = Some qs" "r \<in> set qs" for qs r
    using assms(1,2,3) that unfolding refs_inv_def by blast
  show ?thesis
    using assms(1) unfolding refs_inv_def
    by (auto simp: settle_nth dest: other notq)
qed

lemma refs_inv_enqueue:
  assumes "refs_inv w" and "promises_wf w" and "timer_inv w"
    and "inflight w n = Some c" and "continuation c = RunAutoComplete addr opts p"
  shows "refs_inv (settle p (Follows (length (promises w)))
             (handleDelay \<lparr> address = addr, options = opts, promise = length (promises w) \<rparr>
                (w\<lparr> inflight := (inflight w)(n := None),
                    promises := promises w @ [Pending] \<rparr>)))"
proof -
  have cp: "cont_promise (continuation c) = p" using assms(5) by simp
  have other: "cont_promise (continuation c') \<noteq> p" if "inflight w k = Some c'" "k \<noteq> n" for k c'
    using assms(1,4) cp that unfolding refs_inv_def by blast
  have notq: "promise r \<noteq> p" if "queue w = Some qs" "r \<in> set qs" for qs r
    using assms(1,4) cp that unfolding refs_inv_def by blast
  have lt: "cont_promise (continuation c') < length (promises w)" if "inflight w k = Some c'" for k c'
    using assms(2) that by (auto simp: promises_wf_def)
  have lq: "promise r < length (promises w)" if "queue w = Some qs" "r \<in> set qs" for qs r
    using assms(2) that by (auto simp: promises_wf_def)
  have p: "p < length (promises w)" using lt[OF assms(4)] cp by simp
  have notimer: "timers w h = None" if "queue w = None" for h
    using assms(3) that by (cases "timers w h") (auto simp: timer_inv_def)
  show ?thesis
  proof (cases "queue w")
    case None
    show ?thesis
      using assms(1) None p unfolding refs_inv_def
      by (auto simp: handleDelay_idle settle_nth nth_append dest: other lt)
  next
    case (Some qs)
    show ?thesis
      using assms(1) Some p unfolding refs_inv_def
      by (auto simp: handleDelay_draining settle_nth nth_append
          dest: other lt lq[OF Some] notq[OF Some])
  qed
qed

lemma refs_inv_axios_settles:
  assumes "refs_inv w" and "promises_wf w" and "timer_inv w"
  shows "refs_inv (axios_settles parseResponse n out w)"
proof (cases "inflight w n")
  case None
  then show ?thesis using assms(1) by (simp add: axios_settles_none)
next
  case (Some c)
  show ?thesis
  proof (cases "continuation c")
    case (DrainRequest req)
    have "refs_inv (settle (promise req)
             (case getAutoCompleteResults_resume parseResponse out of
                Inr rs \<Rightarrow> Fulfilled rs | Inl e \<Rightarrow> Rejected e)
             (w\<lparr> inflight := (inflight w)(n := None) \<rparr>))"
      by (rule refs_inv_settle [OF assms(1) Some]) (simp_all add: DrainRequest split: sum.splits)
    then show ?thesis by (simp add: axios_settles_drain [OF Some DrainRequest])
  next
    case (RunAutoComplete addr opts p)
    show ?thesis
    proof (cases "getAutoCompleteResults_resume parseResponse out = Inl TooManyRequestsError")
      case True
      show ?thesis
        unfolding axios_settles_delayed [OF Some RunAutoComplete True]
        by (rule refs_inv_enqueue [OF assms Some RunAutoComplete])
    next
      case False
      have "refs_inv (settle p
             (case getAutoCompleteResults_resume parseResponse out of
                Inr rs \<Rightarrow> Fulfilled rs | Inl e \<Rightarrow> Rejected e)
             (w\<lparr> inflight := (inflight w)(n := None) \<rparr>))"
        by (rule refs_inv_settle [OF assms(1) Some])
           (simp_all add: RunAutoComplete split: sum.splits)
      then show ?thesis by (simp add: axios_settles_final [OF Some RunAutoComplete False])
    qed
  qed
qed

lemma refs_inv_timer_fires:
  assumes "refs_inv w"
  shows "refs_inv (timer_fires h w)"
proof (cases "timers w h")
  case None
  then show ?thesis using assms by (simp add: timer_fires_none)
next
  case (Some d)
  show ?thesis
  proof (cases "queue w")
    case None
    show ?thesis
      using assms by (auto simp: timer_fires_idle [OF Some None] refs_inv_def None)
  next
    case q: (Some qs)
    have pend: "promises w ! promise r = Pending" if "r \<in> set qs" for r
      using assms q Some that unfolding refs_inv_def by blast
    have dist: "distinct (map promise qs)"
      using assms q unfolding refs_inv_def by blast
    have idx: "i = j" if "i < length qs" "j < length qs" "promise (qs ! i) = promise (qs ! j)" for i j
      using dist that by (metis length_map nth_eq_iff_index_eq nth_map)
    have old: "cont_promise (continuation c) \<noteq> promise r" if "inflight w k = Some c" "r \<in> set qs" for k c r
      using assms q that unfolding refs_inv_def by blast
    have key: "k < calls w" if "inflight w k = Some c" for k c
      using assms that unfolding refs_inv_def by blast
    have oldp: "promises w ! cont_promise (continuation c) = Pending" if "inflight w k = Some c" for k c
      using assms that unfolding refs_inv_def by blast
    have oldd: "k = k'" if "inflight w k = Some c" "inflight w k' = Some c'"
      "cont_promise (continuation c) = cont_promise (continuation c')" for k k' c c'
      using assms that unfolding refs_inv_def by blast
    let ?W = "timer_fires h w"
    have infl: "inflight ?W k =
        (if calls w \<le> k \<and> k < calls w + length qs
         then Some \<lparr> request = request_of (params w) (address (qs ! (k - calls w)))
                                  (options (qs ! (k - calls w))),
                      continuation = DrainRequest (qs ! (k - calls w)) \<rparr>
         else inflight w k)" for k
      by (simp add: timer_fires_drain [OF Some q] fold_axios_get_inflight)
    have rest: "calls ?W = calls w + length qs" "promises ?W = promises w" "queue ?W = None"
      by (simp_all add: timer_fires_drain [OF Some q])
    have new: "\<exists>i < length qs. k = calls w + i \<and> cont_promise (continuation c) = promise (qs ! i)"
      if "inflight ?W k = Some c" "calls w \<le> k" for k c
    proof -
      have "k < calls w + length qs"
      proof (rule ccontr)
        assume "\<not> k < calls w + length qs"
        with that(1) have "inflight w k = Some c" by (simp add: infl)
        from key [OF this] that(2) show False by simp
      qed
      with that show ?thesis
        by (auto simp: infl intro!: exI [of _ "k - calls w"])
    qed
    have oldk: "inflight w k = Some c" if "inflight ?W k = Some c" "k < calls w" for k c
      using that by (simp add: infl)
    have p1: "k < calls ?W \<and> promises ?W ! cont_promise (continuation c) = Pending"
      if "inflight ?W k = Some c" for k c
    proof (cases "calls w \<le> k")
      case True
      from new [OF that True] show ?thesis by (auto simp: rest pend)
    next
      case False
      with oldk [OF that] key oldp show ?thesis by (auto simp: rest)
    qed
    have p2: "k = k'"
      if "inflight ?W k = Some c" "inflight ?W k' = Some c'"
        "cont_promise (continuation c) = cont_promise (continuation c')" for k k' c c'
    proof (cases "calls w \<le> k"; cases "calls w \<le> k'")
      assume a: "calls w \<le> k" "calls w \<le> k'"
      from new [OF that(1) a(1)] new [OF that(2) a(2)] that(3) idx show ?thesis by auto
    next
      assume a: "calls w \<le> k" "\<not> calls w \<le> k'"
      from new [OF that(1) a(1)] obtain i where "i < length qs"
        "cont_promise (continuation c) = promise (qs ! i)" by auto
      moreover have "inflight w k' = Some c'" using oldk [OF that(2)] a(2) by simp
      ultimately show ?thesis using old [of k' c' "qs ! i"] that(3) by auto
    next
      assume a: "\<not> calls w \<le> k" "calls w \<le> k'"
      from new [OF that(2) a(2)] obtain i where "i < length qs"
        "cont_promise (continuation c') = promise (qs ! i)" by auto
      moreover have "inflight w k = Some c" using oldk [OF that(1)] a(1) by simp
      ultimately show ?thesis using old [of k c "qs ! i"] that(3) by auto
    next
      assume a: "\<not> calls w \<le> k" "\<not> calls w \<le> k'"
      then have "inflight w k = Some c" "inflight w k' = Some c'"
        using oldk [OF that(1)] oldk [OF that(2)] by simp_all
      then show ?thesis using that(3) by (rule oldd)
    qed
    show ?thesis
      unfolding refs_inv_def using p1 p2 by (simp add: rest)
  qed
qed

lemma refs_inv_dispose:
  assumes "refs_inv w" and "timer_inv w"
  shows "refs_inv (dispose w)"
proof (cases "queue w")
  case None
  then show ?thesis
    using assms(1) by (auto simp: dispose_def clearTimeout_def refs_inv_def split: option.splits)
next
  case (Some qs)
  have st: "\<And>h. timers (dispose w) h = None"
    using dispose_stale [OF assms(2)] Some by (simp add: stale_def)
  have old: "cont_promise (continuation c) \<notin> promise ` set qs" if "inflight w k = Some c" for k c
    using assms(1) Some that unfolding refs_inv_def by blast
  have d: "inflight (dispose w) = inflight w" "calls (dispose w) = calls w"
      "queue (dispose w) = queue w"
      "promises (dispose w) = promises (fold (\<lambda>req. reject (promise req) (Error ''Clearing queue'')) qs w)"
    by (simp_all add: dispose_def clearTimeout_def Some split: option.splits)
  show ?thesis
    using assms(1) unfolding refs_inv_def
    by (auto simp: d st fold_reject_nth Some dest: old)
qed

lemma refs_inv_new: "new_FuzzySearch opts env = Inr w \<Longrightarrow> refs_inv w"
  by (auto simp: new_FuzzySearch_def refs_inv_def split: sum.splits)

lemma reachable_refs_inv: "reachable parseResponse w \<Longrightarrow> refs_inv w"
proof (induction rule: reachable.induct)
  case (reachable_new opts env w)
  then show ?case by (rule refs_inv_new)
next
  case (reachable_step w e)
  note wf = reachable_promises_wf [OF reachable_step.hyps]
  note ti = reachable_timer_inv [OF reachable_step.hyps]
  show ?case
    by (cases e)
       (simp_all add: step_def refs_inv_autoComplete refs_inv_axios_settles
          refs_inv_timer_fires refs_inv_dispose reachable_step.IH wf ti)
qed

subsection \<open>One retry\<close>

lemma params_step: "params (step parseResponse e w) = params w"
proof (cases e)
  case (AutoComplete addr opts)
  then show ?thesis
    by (cases "queue w") (simp_all add: step_def autoComplete_idle autoComplete_draining)
next
  case (AxiosSettles n out)
  show ?thesis
  proof (cases "inflight w n")
    case None
    then show ?thesis by (simp add: AxiosSettles step_def axios_settles_none)
  next
    case (Some c)
    then show ?thesis
      by (cases "continuation c"; cases "queue w";
          cases "getAutoCompleteResults_resume parseResponse out = Inl TooManyRequestsError")
         (simp_all add: AxiosSettles step_def axios_settles_drain axios_settles_final
            axios_settles_delayed handleDelay_idle handleDelay_draining)
  qed
next
  case (TimerFires h)
  then show ?thesis
    by (cases "timers w h"; cases "queue w")
       (simp_all add: step_def timer_fires_none timer_fires_idle timer_fires_drain)
next
  case Dispose
  then show ?thesis
    by (simp add: step_def dispose_def clearTimeout_def split: option.splits)
qed

lemma params_run: "params (run parseResponse es w) = params w"
  by (induction es arbitrary: w) (simp_all add: params_step)

lemma queued_observed: "queued p r w \<Longrightarrow> observed w p = Pending"
  by (simp add: queued_def observed_def unawaited_def)

lemma queued_not_called:
  "queued p r w \<Longrightarrow> inflight w j = Some c \<Longrightarrow> continuation c \<noteq> DrainRequest r"
  by (fastforce simp: queued_def unawaited_def)

lemma retrying_observed: "retrying p r k w \<Longrightarrow> observed w p = Pending"
  by (simp add: retrying_def observed_def)

lemma rate_limited_queued:
  assumes "reachable parseResponse w"
    and "queue w \<noteq> None \<longrightarrow> (\<exists>h. timers w h \<noteq> None)"
    and "inflight w n = Some \<lparr> request = rq, continuation = RunAutoComplete addr opts p \<rparr>"
    and "status f = Some 429"
    and "w1 = axios_settles parseResponse n (Rejects f) w"
    and "r = \<lparr> address = addr, options = opts, promise = length (promises w) \<rparr>"
  shows "calls w1 = calls w"
    and "\<exists>qs. queue w1 = Some (qs @ [r])"
    and "\<exists>h. FuzzySearch.timeout w1 = Some h \<and> timers w1 h \<noteq> None"
    and "queued p r w1"
proof -
  note wf = reachable_promises_wf [OF assms(1)]
  note ti = reachable_timer_inv [OF assms(1)]
  note ri = reachable_refs_inv [OF assms(1)]
  have lt: "cont_promise (continuation c) < length (promises w)" if "inflight w k = Some c" for k c
    using wf that by (auto simp: promises_wf_def)
  have p: "p < length (promises w)" using lt [OF assms(3)] by simp
  have pp: "promises w ! p = Pending"
    using ri assms(3) unfolding refs_inv_def by fastforce
  have res: "getAutoCompleteResults_resume parseResponse (Rejects f) = Inl TooManyRequestsError"
    using assms(4) by (simp add: getAutoCompleteResults_resume_def)
  have c: "continuation \<lparr> request = rq, continuation = RunAutoComplete addr opts p \<rparr>
             = RunAutoComplete addr opts p" by simp
  note eq = axios_settles_delayed [OF assms(3) c res, folded assms(6)]
  show "calls w1 = calls w"
    unfolding assms(5) eq by (cases "queue w") (simp_all add: handleDelay_idle handleDelay_draining)
  show "\<exists>qs. queue w1 = Some (qs @ [r])"
    unfolding assms(5) eq by (cases "queue w") (simp_all add: handleDelay_idle handleDelay_draining)
  show "\<exists>h. FuzzySearch.timeout w1 = Some h \<and> timers w1 h \<noteq> None"
  proof (cases "queue w")
    case None
    then show ?thesis unfolding assms(5) eq by (simp add: handleDelay_idle)
  next
    case (Some qs)
    with assms(2) obtain h where h: "timers w h \<noteq> None" by auto
    with ti have "FuzzySearch.timeout w = Some h" by (simp add: timer_inv_def)
    with h Some show ?thesis unfolding assms(5) eq by (simp add: handleDelay_draining)
  qed
  show "queued p r w1"
    unfolding assms(5) eq queued_def unawaited_def
    using p pp
    by (cases "queue w")
       (auto simp: handleDelay_idle handleDelay_draining settle_nth nth_append assms(6)
          dest: lt)
qed

lemma queued_step:
  assumes "reachable parseResponse w" and "queued p r w" and "timers w h \<noteq> None"
    and "e \<noteq> Dispose" and "e \<noteq> TimerFires h"
  shows "queued p r (step parseResponse e w) \<and> timers (step parseResponse e w) h \<noteq> None"
proof -
  note ti = reachable_timer_inv [OF assms(1)]
  from assms(2) obtain qs where qs: "queue w = Some qs" "r \<in> set qs"
    by (auto simp: queued_def)
  have p: "p < length (promises w)" "promises w ! p = Follows (promise r)"
    and q: "promise r < length (promises w)" "promises w ! promise r = Pending"
    and un: "\<And>k c. inflight w k = Some c \<Longrightarrow> cont_promise (continuation c) \<noteq> promise r"
    using assms(2) by (auto simp: queued_def unawaited_def)
  show ?thesis
  proof (cases e)
    case (AutoComplete addr opts)
    show ?thesis
      using qs p q un
      by (auto simp: AutoComplete step_def autoComplete_draining queued_def unawaited_def
          nth_append assms(3))
  next
    case (AxiosSettles n out)
    show ?thesis
    proof (cases "inflight w n")
      case None
      then show ?thesis
        using assms(2,3) by (simp add: AxiosSettles step_def axios_settles_none)
    next
      case (Some c)
      note ne = un [OF Some]
      show ?thesis
      proof (cases "continuation c")
        case (DrainRequest req)
        show ?thesis
          using qs p q un ne assms(3)
          by (auto simp: AxiosSettles step_def axios_settles_drain [OF Some DrainRequest]
              queued_def unawaited_def settle_nth DrainRequest)
      next
        case (RunAutoComplete addr opts p')
        show ?thesis
        proof (cases "getAutoCompleteResults_resume parseResponse out = Inl TooManyRequestsError")
          case True
          show ?thesis
            using qs p q un ne assms(3)
            by (auto simp: AxiosSettles step_def
                axios_settles_delayed [OF Some RunAutoComplete True]
                handleDelay_draining queued_def unawaited_def settle_nth nth_append
                RunAutoComplete)
        next
          case False
          show ?thesis
            using qs p q un ne assms(3)
            by (auto simp: AxiosSettles step_def
                axios_settles_final [OF Some RunAutoComplete False]
                queued_def unawaited_def settle_nth RunAutoComplete)
        qed
      qed
    qed
  next
    case (TimerFires h')
    from assms(3) obtain d where d: "timers w h = Some d" by auto
    from TimerFires assms(5) have "h' \<noteq> h" by simp
    from timer_inv_unique [OF ti d this] show ?thesis
      using assms(2,3) by (simp add: TimerFires step_def timer_fires_none)
  next
    case Dispose
    with assms(4) show ?thesis by simp
  qed
qed

lemma queued_run:
  assumes "reachable parseResponse w" and "queued p r w" and "timers w h \<noteq> None"
    and "Dispose \<notin> set es" and "TimerFires h \<notin> set es"
  shows "queued p r (run parseResponse es w) \<and> timers (run parseResponse es w) h \<noteq> None"
  using assms
proof (induction es arbitrary: w)
  case Nil
  then show ?case by simp
next
  case (Cons e es)
  from Cons.prems(4,5) have e: "e \<noteq> Dispose" "e \<noteq> TimerFires h" by auto
  note s = queued_step [OF Cons.prems(1,2,3) e]
  have r: "reachable parseResponse (step parseResponse e w)"
    using Cons.prems(1) by (rule reachable_step)
  from Cons.IH [OF r] s Cons.prems(4,5) show ?case by simp
qed

lemma queued_fires:
  assumes "reachable parseResponse w" and "queued p r w" and "timers w h \<noteq> None"
    and "w' = timer_fires h w"
  shows "\<exists>qs. queue w = Some qs \<and> calls w' = calls w + length qs"
    and "queue w' = None"
    and "\<exists>k. calls w \<le> k \<and> k < calls w'
            \<and> inflight w' k
                 = Some \<lparr> request = request_of (params w) (address r) (options r),
                          continuation = DrainRequest r \<rparr>
            \<and> retrying p r k w'"
proof -
  note ri = reachable_refs_inv [OF assms(1)]
  from assms(3) obtain d where d: "timers w h = Some d" by auto
  from assms(2) obtain qs where qs: "queue w = Some qs" "r \<in> set qs"
    by (auto simp: queued_def)
  have p: "p < length (promises w)" "promises w ! p = Follows (promise r)"
    and q: "promise r < length (promises w)" "promises w ! promise r = Pending"
    and un: "\<And>k c. inflight w k = Some c \<Longrightarrow> cont_promise (continuation c) \<noteq> promise r"
    using assms(2) by (auto simp: queued_def unawaited_def)
  from qs(2) obtain i where i: "i < length qs" "qs ! i = r"
    by (auto simp: in_set_conv_nth)
  have dist: "distinct (map promise qs)"
    using ri qs(1) unfolding refs_inv_def by blast
  have idx: "j = i" if "j < length qs" "promise (qs ! j) = promise r" for j
    using dist that i by (metis length_map nth_eq_iff_index_eq nth_map)
  have infl: "inflight w' k =
        (if calls w \<le> k \<and> k < calls w + length qs
         then Some \<lparr> request = request_of (params w) (address (qs ! (k - calls w)))
                                  (options (qs ! (k - calls w))),
                      continuation = DrainRequest (qs ! (k - calls w)) \<rparr>
         else inflight w k)" for k
    by (simp add: assms(4) timer_fires_drain [OF d qs(1)] fold_axios_get_inflight)
  have rest: "calls w' = calls w + length qs" "promises w' = promises w" "queue w' = None"
    by (simp_all add: assms(4) timer_fires_drain [OF d qs(1)])
  show "\<exists>qs. queue w = Some qs \<and> calls w' = calls w + length qs"
    using qs(1) rest(1) by simp
  show "queue w' = None" by (rule rest)
  have uniq: "j = calls w + i"
    if "inflight w' j = Some c" "cont_promise (continuation c) = promise r" for j c
  proof (cases "calls w \<le> j \<and> j < calls w + length qs")
    case True
    with that have "promise (qs ! (j - calls w)) = promise r" by (auto simp: infl)
    from idx [OF _ this] True show ?thesis by auto
  next
    case False
    with that(1) have "inflight w j = Some c" by (simp add: infl)
    from un [OF this] that(2) show ?thesis by simp
  qed
  have "retrying p r (calls w + i) w'"
    unfolding retrying_def using i p q uniq by (auto simp: infl rest)
  then show "\<exists>k. calls w \<le> k \<and> k < calls w'
            \<and> inflight w' k
                 = Some \<lparr> request = request_of (params w) (address r) (options r),
                          continuation = DrainRequest r \<rparr>
            \<and> retrying p r k w'"
    using i by (intro exI [of _ "calls w + i"]) (simp add: infl rest)
qed

lemma promises_dispose:
  "promises (dispose w) =
     (case queue w of
        None \<Rightarrow> promises w
      | Some qs \<Rightarrow> promises (fold (\<lambda>req. reject (promise req) (Error ''Clearing queue'')) qs w))"
  by (simp add: dispose_def clearTimeout_def split: option.splits)

lemma retrying_step:
  assumes "reachable parseResponse w" and "retrying p r k w"
    and "\<forall>out. e \<noteq> AxiosSettles k out"
  shows "retrying p r k (step parseResponse e w)"
proof -
  note ri = reachable_refs_inv [OF assms(1)]
  from assms(2) obtain rq where k: "inflight w k = Some \<lparr> request = rq, continuation = DrainRequest r \<rparr>"
    by (auto simp: retrying_def)
  have kc: "k < calls w" using ri k unfolding refs_inv_def by blast
  have p: "p < length (promises w)" "promises w ! p = Follows (promise r)"
    and q: "promise r < length (promises w)" "promises w ! promise r = Pending"
    and un0: "\<And>j c. inflight w j = Some c \<Longrightarrow> cont_promise (continuation c) = promise r \<Longrightarrow> j = k"
    and nq: "\<And>qs. queue w = Some qs \<Longrightarrow> promise r \<notin> promise ` set qs"
    using assms(2) by (auto simp: retrying_def)
  have un: "cont_promise (continuation c) \<noteq> promise r" if "inflight w j = Some c" "j \<noteq> k" for j c
    using un0 [OF that(1)] that(2) by auto
  show ?thesis
  proof (cases e)
    case (AutoComplete addr opts)
    show ?thesis
    proof (cases "queue w")
      case None
      show ?thesis
        using k kc p q un
        by (auto simp: AutoComplete step_def autoComplete_idle [OF None] retrying_def
            nth_append None)
    next
      case (Some qs)
      show ?thesis
        using k p q un nq [OF Some]
        by (auto simp: AutoComplete step_def autoComplete_draining [OF Some] retrying_def
            nth_append)
    qed
  next
    case (AxiosSettles n out)
    with assms(3) have nk: "n \<noteq> k" by auto
    show ?thesis
    proof (cases "inflight w n")
      case None
      then show ?thesis
        using assms(2) by (simp add: AxiosSettles step_def axios_settles_none)
    next
      case (Some c)
      have ne: "cont_promise (continuation c) \<noteq> promise r"
        using un [OF Some nk] .
      show ?thesis
      proof (cases "continuation c")
        case (DrainRequest req)
        show ?thesis
          using k p q un nq ne nk
          by (auto simp: AxiosSettles step_def axios_settles_drain [OF Some DrainRequest]
              retrying_def settle_nth DrainRequest)
      next
        case (RunAutoComplete addr opts p')
        show ?thesis
        proof (cases "getAutoCompleteResults_resume parseResponse out = Inl TooManyRequestsError")
          case True
          show ?thesis
            using k p q un nq ne nk
            by (cases "queue w")
               (auto simp: AxiosSettles step_def
                axios_settles_delayed [OF Some RunAutoComplete True]
                handleDelay_idle handleDelay_draining retrying_def settle_nth nth_append
                RunAutoComplete)
        next
          case False
          show ?thesis
            using k p q un nq ne nk
            by (auto simp: AxiosSettles step_def
                axios_settles_final [OF Some RunAutoComplete False]
                retrying_def settle_nth RunAutoComplete)
        qed
      qed
    qed
  next
    case (TimerFires h)
    show ?thesis
    proof (cases "timers w h")
      case None
      then show ?thesis using assms(2) by (simp add: TimerFires step_def timer_fires_none)
    next
      case d: (Some d)
      show ?thesis
      proof (cases "queue w")
        case None
        show ?thesis
          using assms(2)
          by (simp add: TimerFires step_def timer_fires_idle [OF d None] retrying_def)
      next
        case (Some qs)
        have nth: "promise (qs ! j) \<noteq> promise r" if "j < length qs" for j
          using nq [OF Some] that by (metis imageI nth_mem)
        show ?thesis
          using k kc p q un nth
          by (auto simp: TimerFires step_def timer_fires_drain [OF d Some] retrying_def
              fold_axios_get_inflight split: if_splits)
      qed
    qed
  next
    case Dispose
    have d: "inflight (dispose w) = inflight w" "queue (dispose w) = queue w"
      "length (promises (dispose w)) = length (promises w)"
      by (simp_all add: dispose_def clearTimeout_def split: option.splits)
    have pr: "promises (dispose w) ! j = promises w ! j"
      if "promises w ! j \<noteq> Pending \<or> (\<forall>qs. queue w = Some qs \<longrightarrow> j \<notin> promise ` set qs)" for j
      using that
      by (cases "queue w") (auto simp: promises_dispose fold_reject_nth)
    show ?thesis
      using k p q un nq
      by (auto simp: Dispose step_def retrying_def d pr)
  qed
qed

lemma retrying_run:
  assumes "reachable parseResponse w" and "retrying p r k w"
    and "\<forall>out. AxiosSettles k out \<notin> set es"
  shows "retrying p r k (run parseResponse es w)"
  using assms
proof (induction es arbitrary: w)
  case Nil
  then show ?case by simp
next
  case (Cons e es)
  from Cons.prems(3) have e: "\<forall>out. e \<noteq> AxiosSettles k out" by auto
  note s = retrying_step [OF Cons.prems(1,2) e]
  have r: "reachable parseResponse (step parseResponse e w)"
    using Cons.prems(1) by (rule reachable_step)
  from Cons.IH [OF r s] Cons.prems(3) show ?case by simp
qed

lemma retrying_settles:
  assumes "retrying p r k w" and "w' = axios_settles parseResponse k out w"
  shows "observed w' p = (case getAutoCompleteResults_resume parseResponse out of
                            Inr rs \<Rightarrow> Fulfilled rs | Inl e \<Rightarrow> Rejected e)"
    and "calls w' = calls w \<and> queue w' = queue w \<and> timers w' = timers w"
    and "retried p r w'"
proof -
  from assms(1) obtain rq where k: "inflight w k = Some \<lparr> request = rq, continuation = DrainRequest r \<rparr>"
    by (auto simp: retrying_def)
  have c: "continuation \<lparr> request = rq, continuation = DrainRequest r \<rparr> = DrainRequest r"
    by simp
  note eq = axios_settles_drain [OF k c, of parseResponse out]
  have p: "p < length (promises w)" "promises w ! p = Follows (promise r)"
    and q: "promise r < length (promises w)" "promises w ! promise r = Pending"
    and un: "\<And>j c. inflight w j = Some c \<Longrightarrow> j \<noteq> k \<Longrightarrow> cont_promise (continuation c) \<noteq> promise r"
    and nq: "\<And>qs. queue w = Some qs \<Longrightarrow> promise r \<notin> promise ` set qs"
    using assms(1) by (auto simp: retrying_def)
  have ne: "p \<noteq> promise r" using p(2) q(2) by auto
  show "observed w' p = (case getAutoCompleteResults_resume parseResponse out of
                            Inr rs \<Rightarrow> Fulfilled rs | Inl e \<Rightarrow> Rejected e)"
    using p q ne by (simp add: assms(2) eq observed_def settle_nth split: sum.splits)
  show "calls w' = calls w \<and> queue w' = queue w \<and> timers w' = timers w"
    by (simp add: assms(2) eq)
  show "retried p r w'"
    unfolding retried_def unawaited_def
    using p q ne nq un
    by (auto simp: assms(2) eq settle_nth split: sum.splits if_splits)
qed

lemma settle_settled:
  "promises w ! j \<noteq> Pending \<Longrightarrow> promises (settle p v w) ! j = promises w ! j"
  by (auto simp: settle_nth)

lemma settled_step:
  assumes "j < length (promises w)" and "promises w ! j \<noteq> Pending"
  shows "promises (step parseResponse e w) ! j = promises w ! j"
    and "j < length (promises (step parseResponse e w))"
proof -
  have "promises (step parseResponse e w) ! j = promises w ! j
      \<and> j < length (promises (step parseResponse e w))"
  proof (cases e)
    case (AutoComplete addr opts)
    then show ?thesis
      using assms
      by (cases "queue w")
         (simp_all add: step_def autoComplete_idle autoComplete_draining nth_append)
  next
    case (AxiosSettles n out)
    show ?thesis
    proof (cases "inflight w n")
      case None
      then show ?thesis using assms by (simp add: AxiosSettles step_def axios_settles_none)
    next
      case (Some c)
      then show ?thesis
        using assms
        by (cases "continuation c"; cases "queue w";
            cases "getAutoCompleteResults_resume parseResponse out = Inl TooManyRequestsError")
           (simp_all add: AxiosSettles step_def axios_settles_drain axios_settles_final
              axios_settles_delayed handleDelay_idle handleDelay_draining settle_settled
              nth_append)
    qed
  next
    case (TimerFires h)
    then show ?thesis
      using assms
      by (cases "timers w h"; cases "queue w")
         (simp_all add: step_def timer_fires_none timer_fires_idle timer_fires_drain)
  next
    case Dispose
    have "length (promises (dispose w)) = length (promises w)"
      by (simp add: dispose_def clearTimeout_def split: option.splits)
    then show ?thesis
      using assms
      by (cases "queue w") (auto simp: Dispose step_def promises_dispose fold_reject_nth)
  qed
  then show "promises (step parseResponse e w) ! j = promises w ! j"
    and "j < length (promises (step parseResponse e w))" by simp_all
qed

lemma retried_step:
  assumes "retried p r w"
  shows "retried p r (step parseResponse e w)"
    and "observed (step parseResponse e w) p = observed w p"
proof -
  have p: "p < length (promises w)" "promises w ! p = Follows (promise r)"
    and q: "promise r < length (promises w)" "promises w ! promise r \<noteq> Pending"
    and un: "\<And>j c. inflight w j = Some c \<Longrightarrow> cont_promise (continuation c) \<noteq> promise r"
    and nq: "\<And>qs. queue w = Some qs \<Longrightarrow> promise r \<notin> promise ` set qs"
    using assms by (auto simp: retried_def unawaited_def)
  have pf: "promises w ! p \<noteq> Pending" using p(2) by simp
  note sp = settled_step [OF p(1) pf, of parseResponse e]
  note sq = settled_step [OF q, of parseResponse e]
  show "observed (step parseResponse e w) p = observed w p"
    using sp sq p q by (simp add: observed_def)
  have refs: "(\<forall>j c. inflight (step parseResponse e w) j = Some c \<longrightarrow>
                 cont_promise (continuation c) \<noteq> promise r)
            \<and> (\<forall>qs. queue (step parseResponse e w) = Some qs \<longrightarrow> promise r \<notin> promise ` set qs)"
  proof (cases e)
    case (AutoComplete addr opts)
    show ?thesis
    proof (cases "queue w")
      case None
      then show ?thesis
        using q un by (auto simp: AutoComplete step_def autoComplete_idle)
    next
      case (Some qs)
      then show ?thesis
        using q un nq [OF Some] by (auto simp: AutoComplete step_def autoComplete_draining)
    qed
  next
    case (AxiosSettles n out)
    show ?thesis
    proof (cases "inflight w n")
      case None
      then show ?thesis using un nq by (simp add: AxiosSettles step_def axios_settles_none)
    next
      case (Some c)
      show ?thesis
      proof (cases "continuation c")
        case (DrainRequest req)
        show ?thesis
          using un nq
          by (auto simp: AxiosSettles step_def axios_settles_drain [OF Some DrainRequest]
              split: if_splits)
      next
        case (RunAutoComplete addr opts p')
        show ?thesis
        proof (cases "getAutoCompleteResults_resume parseResponse out = Inl TooManyRequestsError")
          case True
          show ?thesis
            using un nq q
            by (cases "queue w")
               (auto simp: AxiosSettles step_def
                  axios_settles_delayed [OF Some RunAutoComplete True]
                  handleDelay_idle handleDelay_draining split: if_splits)
        next
          case False
          show ?thesis
            using un nq
            by (auto simp: AxiosSettles step_def
                axios_settles_final [OF Some RunAutoComplete False] split: if_splits)
        qed
      qed
    qed
  next
    case (TimerFires h)
    show ?thesis
    proof (cases "timers w h")
      case None
      then show ?thesis using un nq by (simp add: TimerFires step_def timer_fires_none)
    next
      case d: (Some d)
      show ?thesis
      proof (cases "queue w")
        case None
        then show ?thesis
          using un by (simp add: TimerFires step_def timer_fires_idle [OF d None])
      next
        case (Some qs)
        have nth: "promise (qs ! j) \<noteq> promise r" if "j < length qs" for j
          using nq [OF Some] that by (metis imageI nth_mem)
        show ?thesis
          using un nth
          by (auto simp: TimerFires step_def timer_fires_drain [OF d Some]
              fold_axios_get_inflight split: if_splits)
      qed
    qed
  next
    case Dispose
    have "inflight (dispose w) = inflight w" "queue (dispose w) = queue w"
      by (simp_all add: dispose_def clearTimeout_def split: option.splits)
    then show ?thesis using un nq by (simp add: Dispose step_def)
  qed
  show "retried p r (step parseResponse e w)"
    unfolding retried_def unawaited_def
    using refs sp sq p q by simp
qed

lemma retried_run:
  assumes "retried p r w"
  shows "retried p r (run parseResponse es w) \<and> observed (run parseResponse es w) p = observed w p"
  using assms
proof (induction es arbitrary: w)
  case Nil
  then show ?case by simp
next
  case (Cons e es)
  note s = retried_step [OF Cons.prems, of parseResponse e]
  from Cons.IH [OF s(1)] s(2) show ?case by simp
qed

lemma retried_not_called:
  "retried p r w \<Longrightarrow> inflight w j = Some c \<Longrightarrow> continuation c \<noteq> DrainRequest r"
  by (fastforce simp: retried_def unawaited_def)

lemma queued_dispose:
  assumes "queued p r w"
  shows "observed (dispose w) p = Rejected (Error ''Clearing queue'')"
    and "calls (dispose w) = calls w"
proof -
  from assms obtain qs where qs: "queue w = Some qs" "r \<in> set qs"
    by (auto simp: queued_def)
  have p: "p < length (promises w)" "promises w ! p = Follows (promise r)"
    and q: "promise r < length (promises w)" "promises w ! promise r = Pending"
    using assms by (auto simp: queued_def unawaited_def)
  have l: "length (promises (dispose w)) = length (promises w)"
    by (simp add: dispose_def clearTimeout_def split: option.splits)
  show "observed (dispose w) p = Rejected (Error ''Clearing queue'')"
    using qs p q by (auto simp: observed_def l promises_dispose fold_reject_nth)
  show "calls (dispose w) = calls w"
    by (simp add: dispose_def clearTimeout_def split: option.splits)
qed

lemma single_call_scenario:
  assumes "new_FuzzySearch fopts env = Inr w0"
    and "w = snd (autoComplete addr opts w0)"
    and "status f = Some 429"
    and "w1 = axios_settles parseResponse 0 (Rejects f) w"
    and "w5 = axios_settles parseResponse 1 out (timer_fires 0 w1)"
    and "\<forall>e \<in> set es. \<forall>a opts'. e \<noteq> AutoComplete a opts'"
  shows "fst (autoComplete addr opts w0) = 0"
    and "calls w = 1"
    and "inflight w j = (if j = 0 then Some \<lparr> request = request_of (params w0) addr opts,
                                              continuation = RunAutoComplete addr opts 0 \<rparr>
                         else None)"
    and "FuzzySearch.timeout w1 = Some 0"
    and "calls w5 = 2 \<and> quiescent w5 \<and> calls (run parseResponse es w5) = 2"
proof -
  from assms(1) obtain d ps where w0:
    "w0 = \<lparr> delay = d, params = ps, queue = None, timeout = None,
            promises = [], timers = Map.empty, next_timer = 0, calls = 0,
            inflight = Map.empty \<rparr>"
    by (rule new_FuzzySearch_Inr)
  let ?req = "\<lparr> address = addr, options = opts, promise = 1 \<rparr>"
  show p: "fst (autoComplete addr opts w0) = 0"
    by (simp add: w0 autoComplete_idle)
  have w: "w = \<lparr> delay = d, params = ps, queue = None, timeout = None,
                   promises = [Pending], timers = Map.empty, next_timer = 0, calls = 1,
                   inflight = [0 \<mapsto> \<lparr> request = request_of ps addr opts,
                                       continuation = RunAutoComplete addr opts 0 \<rparr>] \<rparr>"
    by (simp add: assms(2) w0 autoComplete_idle)
  show "calls w = 1" by (simp add: w)
  show "inflight w j = (if j = 0 then Some \<lparr> request = request_of (params w0) addr opts,
                                              continuation = RunAutoComplete addr opts 0 \<rparr>
                         else None)"
    by (simp add: w w0)
  have w1: "w1 = \<lparr> delay = d, params = ps, queue = Some [?req], timeout = Some 0,
                   promises = [Follows 1, Pending], timers = [0 \<mapsto> d], next_timer = 1,
                   calls = 1, inflight = Map.empty \<rparr>"
    using assms(3)
    by (simp add: assms(4) w axios_settles_def getAutoCompleteResults_resume_def
        runAutoComplete_resume_def createQueuedRequest_def new_promise_def handleDelay_def
        setTimeout_def settle_def)
  show "FuzzySearch.timeout w1 = Some 0" by (simp add: w1)
  have w3: "timer_fires 0 w1 = \<lparr> delay = d, params = ps, queue = None, timeout = Some 0,
                   promises = [Follows 1, Pending], timers = Map.empty, next_timer = 1,
                   calls = 2,
                   inflight = [1 \<mapsto> \<lparr> request = request_of ps addr opts,
                                       continuation = DrainRequest ?req \<rparr>] \<rparr>"
    by (simp add: w1 timer_fires_def drain_def axios_get_def)
  have i: "inflight (timer_fires 0 w1) 1 = Some \<lparr> request = request_of ps addr opts,
                                       continuation = DrainRequest ?req \<rparr>"
    by (simp add: w3)
  have c: "continuation \<lparr> request = request_of ps addr opts,
                         continuation = DrainRequest ?req \<rparr> = DrainRequest ?req" by simp
  have q5: "quiescent w5" and c5: "calls w5 = 2"
    unfolding assms(5) axios_settles_drain [OF i c]
    by (simp_all add: w3 quiescent_def)
  from quiescent_run [OF q5 assms(6), where parseResponse = parseResponse] c5 q5
  show "calls w5 = 2 \<and> quiescent w5 \<and> calls (run parseResponse es w5) = 2" by simp
qed

text \<open>
  Claim C1, as the code has it. Take any reachable state in which the queue, if it is set,
  still has its timer, and a waiting call of \<open>autoComplete\<close> that is answered with status
  429. No call of \<open>axios.get\<close> is made then: the request is appended to the queue, a timer
  is set, and the promise stays pending. Whatever happens until that timer fires, short of
  \<open>dispose\<close>, the request stays queued with no lookup made for it (a \<open>dispose\<close> at that
  point rejects the promise without any lookup). When the timer fires, every queued
  request makes one call of \<open>axios.get\<close>, and exactly one call is the lookup of this request.
  Whatever happens until that lookup settles, no second lookup is made for the request.
  The outcome of the lookup settles the promise: fulfilled with the results, rejected
  with \<open>TooManyRequestsError\<close> on status 429, rejected with any other failure; it makes no
  call, queues nothing and sets no timer, and from then on the promise keeps its state
  and no lookup is ever made for the request again. For a single call on a new client
  this takes exactly two calls of \<open>axios.get\<close>, after which the client is at rest and makes
  no further call without a new call of \<open>autoComplete\<close>.
\<close>

theorem rate_limited_retried_once:
  assumes "reachable parseResponse w"
    and "queue w \<noteq> None \<longrightarrow> (\<exists>t. timers w t \<noteq> None)"
    and "inflight w n = Some \<lparr> request = rq, continuation = RunAutoComplete addr opts p \<rparr>"
    and "status f = Some 429"
    and "w1 = axios_settles parseResponse n (Rejects f) w"
    and "r = \<lparr> address = addr, options = opts, promise = length (promises w) \<rparr>"
  shows "calls w1 = calls w \<and> observed w1 p = Pending
       \<and> (\<exists>qs. queue w1 = Some (qs @ [r]))
       \<and> (\<exists>h. FuzzySearch.timeout w1 = Some h \<and> timers w1 h \<noteq> None
            \<and> (\<forall>es1 w2 w3.
                  Dispose \<notin> set es1 \<and> TimerFires h \<notin> set es1
                  \<and> w2 = run parseResponse es1 w1 \<and> w3 = timer_fires h w2 \<longrightarrow>
                    observed w2 p = Pending \<and> timers w2 h \<noteq> None
                  \<and> (\<forall>j c. inflight w2 j = Some c \<longrightarrow> continuation c \<noteq> DrainRequest r)
                  \<and> observed (dispose w2) p = Rejected (Error ''Clearing queue'')
                  \<and> calls (dispose w2) = calls w2
                  \<and> (\<exists>qs. queue w2 = Some qs \<and> r \<in> set qs \<and> calls w3 = calls w2 + length qs)
                  \<and> queue w3 = None
                  \<and> (\<exists>k. calls w2 \<le> k \<and> k < calls w3
                        \<and> inflight w3 k
                             = Some \<lparr> request = request_of (params w) addr opts,
                                      continuation = DrainRequest r \<rparr>
                        \<and> (\<forall>es2 w4 out w5 es3 w6.
                              (\<forall>out'. AxiosSettles k out' \<notin> set es2)
                              \<and> w4 = run parseResponse es2 w3
                              \<and> w5 = axios_settles parseResponse k out w4
                              \<and> w6 = run parseResponse es3 w5 \<longrightarrow>
                                observed w4 p = Pending
                              \<and> (\<forall>j c. inflight w4 j = Some c \<and> continuation c = DrainRequest r
                                    \<longrightarrow> j = k)
                              \<and> (\<forall>qs. queue w4 = Some qs \<longrightarrow> r \<notin> set qs)
                              \<and> observed w5 p
                                  = (case getAutoCompleteResults_resume parseResponse out of
                                       Inr rs \<Rightarrow> Fulfilled rs | Inl e \<Rightarrow> Rejected e)
                              \<and> (\<forall>data res. out = Resolves data \<and> parseResponse data = Inr res
                                    \<longrightarrow> observed w5 p
                                          = Fulfilled (map toAutoCompleteResult (results res)))
                              \<and> (\<forall>f'. out = Rejects f' \<and> status f' = Some 429
                                    \<longrightarrow> observed w5 p = Rejected TooManyRequestsError)
                              \<and> calls w5 = calls w4 \<and> queue w5 = queue w4
                              \<and> timers w5 = timers w4
                              \<and> observed w6 p = observed w5 p
                              \<and> (\<forall>j c. inflight w6 j = Some c
                                    \<longrightarrow> continuation c \<noteq> DrainRequest r)
                              \<and> (\<forall>qs. queue w6 = Some qs \<longrightarrow> r \<notin> set qs)))))
       \<and> (\<forall>fopts env w0 out es.
             new_FuzzySearch fopts env = Inr w0 \<and> w = snd (autoComplete addr opts w0)
             \<and> (\<forall>e \<in> set es. \<forall>a opts'. e \<noteq> AutoComplete a opts') \<longrightarrow>
               n = 0 \<and> calls w = 1 \<and> FuzzySearch.timeout w1 = Some 0
             \<and> calls (axios_settles parseResponse 1 out (timer_fires 0 w1)) = 2
             \<and> quiescent (axios_settles parseResponse 1 out (timer_fires 0 w1))
             \<and> calls (run parseResponse es
                        (axios_settles parseResponse 1 out (timer_fires 0 w1))) = 2)"
proof -
  note B = rate_limited_queued [OF assms]
  from B(3) obtain h where h: "FuzzySearch.timeout w1 = Some h" "timers w1 h \<noteq> None"
    by blast
  have "reachable parseResponse (step parseResponse (AxiosSettles n (Rejects f)) w)"
    using assms(1) by (rule reachable_step)
  then have r1: "reachable parseResponse w1" by (simp add: step_def assms(5))
  have same: "params w1 = params w"
    using params_step [of parseResponse "AxiosSettles n (Rejects f)" w]
    by (simp add: step_def assms(5))
  have ar: "address r = addr" "options r = opts" by (simp_all add: assms(6))
  have wave: "observed w2 p = Pending \<and> timers w2 h \<noteq> None
            \<and> (\<forall>j c. inflight w2 j = Some c \<longrightarrow> continuation c \<noteq> DrainRequest r)
            \<and> observed (dispose w2) p = Rejected (Error ''Clearing queue'')
            \<and> calls (dispose w2) = calls w2
            \<and> (\<exists>qs. queue w2 = Some qs \<and> r \<in> set qs \<and> calls w3 = calls w2 + length qs)
            \<and> queue w3 = None
            \<and> (\<exists>k. calls w2 \<le> k \<and> k < calls w3
                  \<and> inflight w3 k
                       = Some \<lparr> request = request_of (params w) addr opts,
                                continuation = DrainRequest r \<rparr>
                  \<and> (\<forall>es2 w4 out w5 es3 w6.
                        (\<forall>out'. AxiosSettles k out' \<notin> set es2)
                        \<and> w4 = run parseResponse es2 w3
                        \<and> w5 = axios_settles parseResponse k out w4
                        \<and> w6 = run parseResponse es3 w5 \<longrightarrow>
                          observed w4 p = Pending
                        \<and> (\<forall>j c. inflight w4 j = Some c \<and> continuation c = DrainRequest r
                              \<longrightarrow> j = k)
                        \<and> (\<forall>qs. queue w4 = Some qs \<longrightarrow> r \<notin> set qs)
                        \<and> observed w5 p
                            = (case getAutoCompleteResults_resume parseResponse out of
                                 Inr rs \<Rightarrow> Fulfilled rs | Inl e \<Rightarrow> Rejected e)
                        \<and> (\<forall>data res. out = Resolves data \<and> parseResponse data = Inr res
                              \<longrightarrow> observed w5 p
                                    = Fulfilled (map toAutoCompleteResult (results res)))
                        \<and> (\<forall>f'. out = Rejects f' \<and> status f' = Some 429
                              \<longrightarrow> observed w5 p = Rejected TooManyRequestsError)
                        \<and> calls w5 = calls w4 \<and> queue w5 = queue w4
                        \<and> timers w5 = timers w4
                        \<and> observed w6 p = observed w5 p
                        \<and> (\<forall>j c. inflight w6 j = Some c
                              \<longrightarrow> continuation c \<noteq> DrainRequest r)
                        \<and> (\<forall>qs. queue w6 = Some qs \<longrightarrow> r \<notin> set qs)))"
    if a: "Dispose \<notin> set es1" "TimerFires h \<notin> set es1"
      "w2 = run parseResponse es1 w1" "w3 = timer_fires h w2" for es1 w2 w3
  proof -
    from queued_run [OF r1 B(4) h(2) a(1,2)]
    have q2: "queued p r w2" and t2: "timers w2 h \<noteq> None" by (simp_all add: a(3))
    have r2: "reachable parseResponse w2"
      unfolding a(3) using r1 by (rule reachable_run)
    have p2: "params w2 = params w" by (simp add: a(3) params_run same)
    note D = queued_fires [OF r2 q2 t2 a(4)]
    from D(3) obtain k where k: "calls w2 \<le> k" "k < calls w3"
      "inflight w3 k = Some \<lparr> request = request_of (params w) addr opts,
                               continuation = DrainRequest r \<rparr>"
      and rt: "retrying p r k w3"
      by (auto simp: p2 ar)
    have "reachable parseResponse (step parseResponse (TimerFires h) w2)"
      using r2 by (rule reachable_step)
    then have r3: "reachable parseResponse w3" by (simp add: step_def a(4))
    have after: "observed w4 p = Pending
          \<and> (\<forall>j c. inflight w4 j = Some c \<and> continuation c = DrainRequest r \<longrightarrow> j = k)
          \<and> (\<forall>qs. queue w4 = Some qs \<longrightarrow> r \<notin> set qs)
          \<and> observed w5 p
              = (case getAutoCompleteResults_resume parseResponse out of
                   Inr rs \<Rightarrow> Fulfilled rs | Inl e \<Rightarrow> Rejected e)
          \<and> (\<forall>data res. out = Resolves data \<and> parseResponse data = Inr res
                \<longrightarrow> observed w5 p = Fulfilled (map toAutoCompleteResult (results res)))
          \<and> (\<forall>f'. out = Rejects f' \<and> status f' = Some 429
                \<longrightarrow> observed w5 p = Rejected TooManyRequestsError)
          \<and> calls w5 = calls w4 \<and> queue w5 = queue w4 \<and> timers w5 = timers w4
          \<and> observed w6 p = observed w5 p
          \<and> (\<forall>j c. inflight w6 j = Some c \<longrightarrow> continuation c \<noteq> DrainRequest r)
          \<and> (\<forall>qs. queue w6 = Some qs \<longrightarrow> r \<notin> set qs)"
      if b: "\<forall>out'. AxiosSettles k out' \<notin> set es2" "w4 = run parseResponse es2 w3"
        "w5 = axios_settles parseResponse k out w4" "w6 = run parseResponse es3 w5"
      for es2 w4 out w5 es3 w6
    proof -
      have r4: "retrying p r k w4"
        unfolding b(2) using r3 rt b(1) by (rule retrying_run)
      note F = retrying_settles [OF r4 b(3)]
      from retried_run [OF F(3), of parseResponse es3]
      have d6: "retried p r w6" and o6: "observed w6 p = observed w5 p"
        by (simp_all add: b(4))
      have u4: "j = k" if "inflight w4 j = Some c" "continuation c = DrainRequest r" for j c
        using r4 that by (auto simp: retrying_def)
      have n4: "r \<notin> set qs" if "queue w4 = Some qs" for qs
        using r4 that by (auto simp: retrying_def)
      have n6: "r \<notin> set qs" if "queue w6 = Some qs" for qs
        using d6 that by (auto simp: retried_def)
      have s1: "observed w5 p = Fulfilled (map toAutoCompleteResult (results res))"
        if "out = Resolves data" "parseResponse data = Inr res" for data res
        using that by (simp add: F(1) getAutoCompleteResults_resume_def)
      have s2: "observed w5 p = Rejected TooManyRequestsError"
        if "out = Rejects f'" "status f' = Some 429" for f'
        using that by (simp add: F(1) getAutoCompleteResults_resume_def)
      show ?thesis
        using retrying_observed [OF r4] u4 n4 F(1,2) s1 s2 o6 n6
          retried_not_called [OF d6]
        by blast
    qed
    have inner: "\<forall>es2 w4 out w5 es3 w6.
                        (\<forall>out'. AxiosSettles k out' \<notin> set es2)
                        \<and> w4 = run parseResponse es2 w3
                        \<and> w5 = axios_settles parseResponse k out w4
                        \<and> w6 = run parseResponse es3 w5 \<longrightarrow>
                          observed w4 p = Pending
                        \<and> (\<forall>j c. inflight w4 j = Some c \<and> continuation c = DrainRequest r
                              \<longrightarrow> j = k)
                        \<and> (\<forall>qs. queue w4 = Some qs \<longrightarrow> r \<notin> set qs)
                        \<and> observed w5 p
                            = (case getAutoCompleteResults_resume parseResponse out of
                                 Inr rs \<Rightarrow> Fulfilled rs | Inl e \<Rightarrow> Rejected e)
                        \<and> (\<forall>data res. out = Resolves data \<and> parseResponse data = Inr res
                              \<longrightarrow> observed w5 p
                                    = Fulfilled (map toAutoCompleteResult (results res)))
                        \<and> (\<forall>f'. out = Rejects f' \<and> status f' = Some 429
                              \<longrightarrow> observed w5 p = Rejected TooManyRequestsError)
                        \<and> calls w5 = calls w4 \<and> queue w5 = queue w4
                        \<and> timers w5 = timers w4
                        \<and> observed w6 p = observed w5 p
                        \<and> (\<forall>j c. inflight w6 j = Some c
                              \<longrightarrow> continuation c \<noteq> DrainRequest r)
                        \<and> (\<forall>qs. queue w6 = Some qs \<longrightarrow> r \<notin> set qs)"
    proof (intro allI impI)
      fix es2 w4 out w5 es3 w6
      assume "(\<forall>out'. AxiosSettles k out' \<notin> set es2)
                        \<and> w4 = run parseResponse es2 w3
                        \<and> w5 = axios_settles parseResponse k out w4
                        \<and> w6 = run parseResponse es3 w5"
      then have "\<forall>out'. AxiosSettles k out' \<notin> set es2" "w4 = run parseResponse es2 w3"
        "w5 = axios_settles parseResponse k out w4" "w6 = run parseResponse es3 w5"
        by simp_all
      then show "observed w4 p = Pending
                        \<and> (\<forall>j c. inflight w4 j = Some c \<and> continuation c = DrainRequest r
                              \<longrightarrow> j = k)
                        \<and> (\<forall>qs. queue w4 = Some qs \<longrightarrow> r \<notin> set qs)
                        \<and> observed w5 p
                            = (case getAutoCompleteResults_resume parseResponse out of
                                 Inr rs \<Rightarrow> Fulfilled rs | Inl e \<Rightarrow> Rejected e)
                        \<and> (\<forall>data res. out = Resolves data \<and> parseResponse data = Inr res
                              \<longrightarrow> observed w5 p
                                    = Fulfilled (map toAutoCompleteResult (results res)))
                        \<and> (\<forall>f'. out = Rejects f' \<and> status f' = Some 429
                              \<longrightarrow> observed w5 p = Rejected TooManyRequestsError)
                        \<and> calls w5 = calls w4 \<and> queue w5 = queue w4
                        \<and> timers w5 = timers w4
                        \<and> observed w6 p = observed w5 p
                        \<and> (\<forall>j c. inflight w6 j = Some c
                              \<longrightarrow> continuation c \<noteq> DrainRequest r)
                        \<and> (\<forall>qs. queue w6 = Some qs \<longrightarrow> r \<notin> set qs)"
        by (rule after)
    qed
    have qs: "\<exists>qs. queue w2 = Some qs \<and> r \<in> set qs \<and> calls w3 = calls w2 + length qs"
      using D(1) q2 by (auto simp: queued_def)
    have nc: "\<forall>j c. inflight w2 j = Some c \<longrightarrow> continuation c \<noteq> DrainRequest r"
      using queued_not_called [OF q2] by blast
    show ?thesis
    proof (intro conjI)
      show "observed w2 p = Pending" by (rule queued_observed [OF q2])
      show "timers w2 h \<noteq> None" by (rule t2)
      show "\<forall>j c. inflight w2 j = Some c \<longrightarrow> continuation c \<noteq> DrainRequest r" by (rule nc)
      show "observed (dispose w2) p = Rejected (Error ''Clearing queue'')"
        by (rule queued_dispose [OF q2])
      show "calls (dispose w2) = calls w2" by (rule queued_dispose [OF q2])
      show "\<exists>qs. queue w2 = Some qs \<and> r \<in> set qs \<and> calls w3 = calls w2 + length qs"
        by (rule qs)
      show "queue w3 = None" by (rule D(2))
      show "\<exists>k. calls w2 \<le> k \<and> k < calls w3
                  \<and> inflight w3 k
                       = Some \<lparr> request = request_of (params w) addr opts,
                                continuation = DrainRequest r \<rparr>
                  \<and> (\<forall>es2 w4 out w5 es3 w6.
                        (\<forall>out'. AxiosSettles k out' \<notin> set es2)
                        \<and> w4 = run parseResponse es2 w3
                        \<and> w5 = axios_settles parseResponse k out w4
                        \<and> w6 = run parseResponse es3 w5 \<longrightarrow>
                          observed w4 p = Pending
                        \<and> (\<forall>j c. inflight w4 j = Some c \<and> continuation c = DrainRequest r
                              \<longrightarrow> j = k)
                        \<and> (\<forall>qs. queue w4 = Some qs \<longrightarrow> r \<notin> set qs)
                        \<and> observed w5 p
                            = (case getAutoCompleteResults_resume parseResponse out of
                                 Inr rs \<Rightarrow> Fulfilled rs | Inl e \<Rightarrow> Rejected e)
                        \<and> (\<forall>data res. out = Resolves data \<and> parseResponse data = Inr res
                              \<longrightarrow> observed w5 p
                                    = Fulfilled (map toAutoCompleteResult (results res)))
                        \<and> (\<forall>f'. out = Rejects f' \<and> status f' = Some 429
                              \<longrightarrow> observed w5 p = Rejected TooManyRequestsError)
                        \<and> calls w5 = calls w4 \<and> queue w5 = queue w4
                        \<and> timers w5 = timers w4
                        \<and> observed w6 p = observed w5 p
                        \<and> (\<forall>j c. inflight w6 j = Some c
                              \<longrightarrow> continuation c \<noteq> DrainRequest r)
                        \<and> (\<forall>qs. queue w6 = Some qs \<longrightarrow> r \<notin> set qs))"
        using k inner by (intro exI [of _ k]) (intro conjI)
    qed
  qed
  have alone: "n = 0 \<and> calls w = 1 \<and> FuzzySearch.timeout w1 = Some 0
             \<and> calls (axios_settles parseResponse 1 out (timer_fires 0 w1)) = 2
             \<and> quiescent (axios_settles parseResponse 1 out (timer_fires 0 w1))
             \<and> calls (run parseResponse es
                        (axios_settles parseResponse 1 out (timer_fires 0 w1))) = 2"
    if c: "new_FuzzySearch fopts env = Inr w0" "w = snd (autoComplete addr opts w0)"
      "\<forall>e \<in> set es. \<forall>a opts'. e \<noteq> AutoComplete a opts'" for fopts env w0 out es
  proof -
    have "inflight w j = None" if "j \<noteq> 0" for j
    proof -
      have "inflight w j = (if j = 0 then Some \<lparr> request = request_of (params w0) addr opts,
                                              continuation = RunAutoComplete addr opts 0 \<rparr>
                         else None)"
        by (rule single_call_scenario(3) [OF c(1,2) assms(4) refl refl c(3)])
      with that show ?thesis by simp
    qed
    with assms(3) have n: "n = 0" by (cases "n = 0") auto
    have w1: "w1 = axios_settles parseResponse 0 (Rejects f) w" using assms(5) n by simp
    note S = single_call_scenario(2,4) [OF c(1,2) assms(4) w1 refl c(3)]
    note T = single_call_scenario(5) [OF c(1,2) assms(4) w1 refl c(3), where out = out]
    from S T n show ?thesis by simp
  qed
  show ?thesis
  proof (intro conjI)
    show "calls w1 = calls w" by (rule B(1))
    show "observed w1 p = Pending" by (rule queued_observed [OF B(4)])
    show "\<exists>qs. queue w1 = Some (qs @ [r])" by (rule B(2))
    show "\<exists>h. FuzzySearch.timeout w1 = Some h \<and> timers w1 h \<noteq> None
            \<and> (\<forall>es1 w2 w3.
                  Dispose \<notin> set es1 \<and> TimerFires h \<notin> set es1
                  \<and> w2 = run parseResponse es1 w1 \<and> w3 = timer_fires h w2 \<longrightarrow>
                    observed w2 p = Pending \<and> timers w2 h \<noteq> None
                  \<and> (\<forall>j c. inflight w2 j = Some c \<longrightarrow> continuation c \<noteq> DrainRequest r)
                  \<and> observed (dispose w2) p = Rejected (Error ''Clearing queue'')
                  \<and> calls (dispose w2) = calls w2
                  \<and> (\<exists>qs. queue w2 = Some qs \<and> r \<in> set qs \<and> calls w3 = calls w2 + length qs)
                  \<and> queue w3 = None
                  \<and> (\<exists>k. calls w2 \<le> k \<and> k < calls w3
                        \<and> inflight w3 k
                             = Some \<lparr> request = request_of (params w) addr opts,
                                      continuation = DrainRequest r \<rparr>
                        \<and> (\<forall>es2 w4 out w5 es3 w6.
                              (\<forall>out'. AxiosSettles k out' \<notin> set es2)
                              \<and> w4 = run parseResponse es2 w3
                              \<and> w5 = axios_settles parseResponse k out w4
                              \<and> w6 = run parseResponse es3 w5 \<longrightarrow>
                                observed w4 p = Pending
                              \<and> (\<forall>j c. inflight w4 j = Some c \<and> continuation c = DrainRequest r
                                    \<longrightarrow> j = k)
                              \<and> (\<forall>qs. queue w4 = Some qs \<longrightarrow> r \<notin> set qs)
                              \<and> observed w5 p
                                  = (case getAutoCompleteResults_resume parseResponse out of
                                       Inr rs \<Rightarrow> Fulfilled rs | Inl e \<Rightarrow> Rejected e)
                              \<and> (\<forall>data res. out = Resolves data \<and> parseResponse data = Inr res
                                    \<longrightarrow> observed w5 p
                                          = Fulfilled (map toAutoCompleteResult (results res)))
                              \<and> (\<forall>f'. out = Rejects f' \<and> status f' = Some 429
                                    \<longrightarrow> observed w5 p = Rejected TooManyRequestsError)
                              \<and> calls w5 = calls w4 \<and> queue w5 = queue w4
                              \<and> timers w5 = timers w4
                              \<and> observed w6 p = observed w5 p
                              \<and> (\<forall>j c. inflight w6 j = Some c
                                    \<longrightarrow> continuation c \<noteq> DrainRequest r)
                              \<and> (\<forall>qs. queue w6 = Some qs \<longrightarrow> r \<notin> set qs))))"
      apply (rule exI [of _ h])
      apply (intro conjI)
        apply (rule h)
       apply (rule h)
      apply (intro allI impI)
      apply (elim conjE)
      apply (rule wave; assumption)
      done
    show "\<forall>fopts env w0 out es.
             new_FuzzySearch fopts env = Inr w0 \<and> w = snd (autoComplete addr opts w0)
             \<and> (\<forall>e \<in> set es. \<forall>a opts'. e \<noteq> AutoComplete a opts') \<longrightarrow>
               n = 0 \<and> calls w = 1 \<and> FuzzySearch.timeout w1 = Some 0
             \<and> calls (axios_settles parseResponse 1 out (timer_fires 0 w1)) = 2
             \<and> quiescent (axios_settles parseResponse 1 out (timer_fires 0 w1))
             \<and> calls (run parseResponse es
                        (axios_settles parseResponse 1 out (timer_fires 0 w1))) = 2"
      using alone by blast
  qed
qed

lemma ex_first_call:
  "snd (autoComplete ''Test address'' ex_options ex_client) =
     \<lparr> delay = Num 500, params = \<lparr> key = ''test'', countrySet = ''AU'', limit = Num 100 \<rparr>,
       queue = None, timeout = None, promises = [Pending], timers = Map.empty,
       next_timer = 0, calls = 1,
       inflight = [0 \<mapsto> \<lparr> request = request_of \<lparr> key = ''test'', countrySet = ''AU'', limit = Num 100 \<rparr>
                                         ''Test address'' ex_options,
                           continuation = RunAutoComplete ''Test address'' ex_options 0 \<rparr>] \<rparr>"
  by (simp add: ex_client_def autoComplete_idle)

lemma ex_draining_first_call:
  "axios_settles ex_parse 0 (Rejects too_many_requests)
     (snd (autoComplete ''Test address'' ex_options ex_client)) = ex_draining"
  by (simp add: ex_draining_def step_def)

lemma ex_fired:
  "timer_fires 0 ex_draining =
     \<lparr> delay = Num 500, params = \<lparr> key = ''test'', countrySet = ''AU'', limit = Num 100 \<rparr>,
       queue = None, timeout = Some 0, promises = [Follows 1, Pending], timers = Map.empty,
       next_timer = 1, calls = 2,
       inflight = [1 \<mapsto> \<lparr> request = request_of \<lparr> key = ''test'', countrySet = ''AU'', limit = Num 100 \<rparr>
                                         ''Test address'' ex_options,
                           continuation = DrainRequest \<lparr> address = ''Test address'',
                                            options = ex_options, promise = 1 \<rparr> \<rparr>] \<rparr>"
  by (simp add: ex_draining_eq timer_fires_def drain_def axios_get_def)

theorem rate_limited_retried_once_witness:
  "reachable ex_parse (snd (autoComplete ''Test address'' ex_options ex_client))
   \<and> queue (snd (autoComplete ''Test address'' ex_options ex_client)) = None
   \<and> status too_many_requests = Some 429
   \<and> ex_parse (Inr VALID_RESPONSE) = Inr VALID_RESPONSE
   \<and> observed (axios_settles ex_parse 1 (Resolves (Inr VALID_RESPONSE))
                 (timer_fires 0 ex_draining)) 0 = Fulfilled VALID_RESULTS
   \<and> observed (axios_settles ex_parse 1 (Rejects too_many_requests)
                 (timer_fires 0 ex_draining)) 0 = Rejected TooManyRequestsError
   \<and> calls (axios_settles ex_parse 1 (Rejects too_many_requests)
                 (timer_fires 0 ex_draining)) = 2"
proof -
  let ?w = "snd (autoComplete ''Test address'' ex_options ex_client)"
  have "reachable ex_parse (step ex_parse (AutoComplete ''Test address'' ex_options) ex_client)"
    by (intro reachable_step reachable_new) (rule ex_client_new)
  then have reach: "reachable ex_parse ?w" by (simp add: step_def)
  have idle: "queue ?w = None" by (simp add: ex_first_call)
  then have live: "queue ?w \<noteq> None \<longrightarrow> (\<exists>t. timers ?w t \<noteq> None)" by simp
  have i: "inflight ?w 0
             = Some \<lparr> request = request_of (params ex_client) ''Test address'' ex_options,
                      continuation = RunAutoComplete ''Test address'' ex_options 0 \<rparr>"
    unfolding ex_first_call by (simp add: ex_client_def)
  have s: "status too_many_requests = Some 429" by (simp add: too_many_requests_def)
  have v: "ex_parse (Inr VALID_RESPONSE) = Inr VALID_RESPONSE" by (simp add: ex_parse_def)
  note T = rate_limited_retried_once [OF reach live i s refl refl,
      unfolded ex_draining_first_call]
  note wave = T [THEN conjunct2, THEN conjunct2, THEN conjunct2, THEN conjunct1]
  note alone = T [THEN conjunct2, THEN conjunct2, THEN conjunct2, THEN conjunct2]
  have retry: "observed (axios_settles ex_parse 1 (Resolves (Inr VALID_RESPONSE))
                 (timer_fires 0 ex_draining)) 0 = Fulfilled VALID_RESULTS
   \<and> observed (axios_settles ex_parse 1 (Rejects too_many_requests)
                 (timer_fires 0 ex_draining)) 0 = Rejected TooManyRequestsError"
    using wave
  proof (elim exE conjE, goal_cases)
    case (1 h)
    from 1(1) have h: "h = 0" by (simp add: ex_draining_eq)
    have pre: "Dispose \<notin> set [] \<and> TimerFires h \<notin> set []
        \<and> ex_draining = run ex_parse [] ex_draining
        \<and> timer_fires h ex_draining = timer_fires h ex_draining" by simp
    from 1(3) [THEN spec, THEN spec, THEN spec, THEN mp, OF pre]
    show ?case
    proof (elim exE conjE, goal_cases)
      case (1 qs k)
      from 1(12) have k: "k = 1" by (simp add: h ex_fired split: if_splits)
      have pre1: "(\<forall>out'. AxiosSettles k out' \<notin> set [])
          \<and> timer_fires h ex_draining = run ex_parse [] (timer_fires h ex_draining)
          \<and> axios_settles ex_parse k (Resolves (Inr VALID_RESPONSE)) (timer_fires h ex_draining)
              = axios_settles ex_parse k (Resolves (Inr VALID_RESPONSE)) (timer_fires h ex_draining)
          \<and> axios_settles ex_parse k (Resolves (Inr VALID_RESPONSE)) (timer_fires h ex_draining)
              = run ex_parse [] (axios_settles ex_parse k (Resolves (Inr VALID_RESPONSE))
                                   (timer_fires h ex_draining))" by simp
      have pre2: "(\<forall>out'. AxiosSettles k out' \<notin> set [])
          \<and> timer_fires h ex_draining = run ex_parse [] (timer_fires h ex_draining)
          \<and> axios_settles ex_parse k (Rejects too_many_requests) (timer_fires h ex_draining)
              = axios_settles ex_parse k (Rejects too_many_requests) (timer_fires h ex_draining)
          \<and> axios_settles ex_parse k (Rejects too_many_requests) (timer_fires h ex_draining)
              = run ex_parse [] (axios_settles ex_parse k (Rejects too_many_requests)
                                   (timer_fires h ex_draining))" by simp
      note a = 1(13) [THEN spec, THEN spec, THEN spec, THEN spec, THEN spec, THEN spec,
          THEN mp, OF pre1]
      note b = 1(13) [THEN spec, THEN spec, THEN spec, THEN spec, THEN spec, THEN spec,
          THEN mp, OF pre2]
      note a4 = a [THEN conjunct2, THEN conjunct2, THEN conjunct2, THEN conjunct1]
      note b4 = b [THEN conjunct2, THEN conjunct2, THEN conjunct2, THEN conjunct1]
      have ra: "getAutoCompleteResults_resume ex_parse (Resolves (Inr VALID_RESPONSE))
                  = Inr VALID_RESULTS"
        by (simp add: getAutoCompleteResults_resume_def ex_parse_def VALID_RESULTS_eq)
      have rb: "getAutoCompleteResults_resume ex_parse (Rejects too_many_requests)
                  = Inl TooManyRequestsError"
        by (simp add: getAutoCompleteResults_resume_def too_many_requests_def)
      from a4 b4 show ?case
        unfolding ra rb h k by simp
    qed
  qed
  have "new_FuzzySearch \<lparr>apiKey = Some ''test'', delay = Some (Num 500), limit = None\<rparr> None
           = Inr ex_client
        \<and> ?w = snd (autoComplete ''Test address'' ex_options ex_client)
        \<and> (\<forall>e \<in> set ([] :: (string list + SearchResponse) event list).
              \<forall>a opts'. e \<noteq> AutoComplete a opts')"
    using ex_client_new by simp
  from alone [THEN spec [of _ "\<lparr>apiKey = Some ''test'', delay = Some (Num 500), limit = None\<rparr>"],
      THEN spec [of _ None], THEN spec [of _ ex_client],
      THEN spec [of _ "Rejects too_many_requests"], THEN spec [of _ "[]"], THEN mp, OF this]
  have two: "calls (axios_settles ex_parse 1 (Rejects too_many_requests)
                 (timer_fires 0 ex_draining)) = 2"
    by simp
  from reach idle s v retry two show ?thesis by simp
qed

text \<open>
  Claim C1 as it is written fails. A \<open>dispose\<close> while the request waits in the queue
  rejects its promise and clears the timer: one call of \<open>axios.get\<close> and no retry. And a
  call that is answered with status 429 after a \<open>dispose\<close> that left the queue set is
  appended to that queue, which no timer drains: its promise stays pending and no retry
  is made.
\<close>

theorem rate_limited_not_retried_counterexample:
  "observed ex_draining 0 = Pending
   \<and> observed (dispose ex_draining) 0 = Rejected (Error ''Clearing queue'')
   \<and> calls (dispose ex_draining) = 1
   \<and> timer_fires 0 (dispose ex_draining) = dispose ex_draining
   \<and> fst (autoComplete ''Test address 1'' ex_options
             (snd (autoComplete ''Test address'' ex_options ex_client))) = 1
   \<and> observed ex_stale 1 = Pending
   \<and> queue ex_stale = Some [\<lparr> address = ''Test address'', options = ex_options, promise = 2 \<rparr>,
                            \<lparr> address = ''Test address 1'', options = ex_options, promise = 3 \<rparr>]
   \<and> calls ex_stale = 2 \<and> stale ex_stale
   \<and> inflight ex_stale 0 = None \<and> inflight ex_stale 1 = None"
proof -
  have a: "observed ex_draining 0 = Pending
      \<and> observed (dispose ex_draining) 0 = Rejected (Error ''Clearing queue'')
      \<and> calls (dispose ex_draining) = 1
      \<and> timer_fires 0 (dispose ex_draining) = dispose ex_draining"
    by (simp add: ex_draining_eq) (simp add: client_defs)
  have b: "fst (autoComplete ''Test address 1'' ex_options
             (snd (autoComplete ''Test address'' ex_options ex_client))) = 1"
    by (simp add: ex_first_call autoComplete_idle)
  have c: "ex_stale =
     \<lparr> delay = Num 500, params = \<lparr> key = ''test'', countrySet = ''AU'', limit = Num 100 \<rparr>,
       queue = Some [\<lparr> address = ''Test address'', options = ex_options, promise = 2 \<rparr>,
                     \<lparr> address = ''Test address 1'', options = ex_options, promise = 3 \<rparr>],
       timeout = Some 0,
       promises = [Follows 2, Follows 3, Rejected (Error ''Clearing queue''), Pending],
       timers = Map.empty, next_timer = 1, calls = 2, inflight = Map.empty \<rparr>"
    by (simp add: ex_stale_def ex_client_def too_many_requests_def client_defs)
  from a b show ?thesis by (simp add: c observed_def stale_def)
qed

subsection \<open>Calls made while the queue is set\<close>



subsection \<open>Disposal, and the two fields\<close>

text \<open>
  Claim C3 against the code. \<open>dispose\<close> never assigns the queue. On the client that waits
  for its timer with one queued request, \<open>dispose\<close> clears the timer and rejects the
  request, and the queue is still set afterwards.
\<close>

theorem dispose_keeps_queue:
  "queue (dispose w) = queue w
   \<and> queue ex_draining = Some [\<lparr> address = ''Test address'', options = ex_options, promise = 1 \<rparr>]
   \<and> timers ex_draining 0 = Some (Num 500)
   \<and> queue (dispose ex_draining)
        = Some [\<lparr> address = ''Test address'', options = ex_options, promise = 1 \<rparr>]
   \<and> timers (dispose ex_draining) 0 = None
   \<and> observed (dispose ex_draining) 0 = Rejected (Error ''Clearing queue'')"
  by (simp add: dispose_queue ex_draining_eq) (simp add: client_defs)

text \<open>
  Claim C2, as the code has it. In every reachable state, a queue that is set comes with
  a handle in the field \<open>timeout\<close>, and a timer is set only if it is the one of that field
  and the queue is set. Both fields are assigned together when a request is delayed with
  no queue. When the timer fires, the queue is unset and the field \<open>timeout\<close> keeps the
  handle of the timer that has fired.
\<close>

theorem queue_timeout_inv:
  assumes "reachable parseResponse w"
  shows "(queue w \<noteq> None \<longrightarrow> FuzzySearch.timeout w \<noteq> None)
       \<and> (\<forall>h. timers w h \<noteq> None \<longrightarrow> FuzzySearch.timeout w = Some h \<and> queue w \<noteq> None)
       \<and> (\<forall>req. queue w = None \<longrightarrow>
             queue (handleDelay req w) = Some [req]
           \<and> FuzzySearch.timeout (handleDelay req w) = Some (next_timer w)
           \<and> timers (handleDelay req w) (next_timer w) = Some (FuzzySearch.delay w))
       \<and> (\<forall>h. timers w h \<noteq> None \<longrightarrow>
             queue (timer_fires h w) = None
           \<and> FuzzySearch.timeout (timer_fires h w) = FuzzySearch.timeout w
           \<and> (\<forall>h'. timers (timer_fires h w) h' = None))"
proof -
  have inv: "timer_inv w" using assms by (rule reachable_timer_inv)
  have a: "queue w \<noteq> None \<longrightarrow> FuzzySearch.timeout w \<noteq> None"
    and b: "\<forall>h. timers w h \<noteq> None \<longrightarrow> FuzzySearch.timeout w = Some h \<and> queue w \<noteq> None"
    using inv by (simp_all add: timer_inv_def)
  have c: "queue (handleDelay req w) = Some [req]
           \<and> FuzzySearch.timeout (handleDelay req w) = Some (next_timer w)
           \<and> timers (handleDelay req w) (next_timer w) = Some (FuzzySearch.delay w)"
    if "queue w = None" for req
    using that by (simp add: handleDelay_def setTimeout_def)
  have d: "queue (timer_fires h w) = None
           \<and> FuzzySearch.timeout (timer_fires h w) = FuzzySearch.timeout w
           \<and> (\<forall>h'. timers (timer_fires h w) h' = None)"
    if "timers w h \<noteq> None" for h
  proof -
    from that obtain dl where dl: "timers w h = Some dl" by auto
    have u: "timers w h' = None" if "h' \<noteq> h" for h'
      using timer_inv_unique [OF inv dl that] .
    from b that obtain q where q: "queue w = Some q" by auto
    show ?thesis using dl q u by (simp add: timer_fires_def drain_def)
  qed
  from a b c d show ?thesis by blast
qed

theorem queue_timeout_inv_witness:
  "reachable ex_parse ex_draining
   \<and> queue ex_draining \<noteq> None \<and> FuzzySearch.timeout ex_draining = Some 0
   \<and> timers ex_draining 0 \<noteq> None
   \<and> queue (timer_fires 0 ex_draining) = None
   \<and> FuzzySearch.timeout (timer_fires 0 ex_draining) = Some 0"
proof -
  have t: "timers ex_draining 0 \<noteq> None" by (simp add: ex_draining_eq)
  from queue_timeout_inv [OF reachable_ex_draining] t
  have "FuzzySearch.timeout ex_draining = Some 0 \<and> queue ex_draining \<noteq> None
      \<and> queue (timer_fires 0 ex_draining) = None
      \<and> FuzzySearch.timeout (timer_fires 0 ex_draining) = FuzzySearch.timeout ex_draining"
    by blast
  then show ?thesis using reachable_ex_draining t by simp
qed

text \<open>
  Claim C2 as it is written fails: after the drain the queue is unset and the field
  \<open>timeout\<close> is still set.
\<close>

theorem queue_unset_timeout_set_counterexample:
  "reachable ex_parse (timer_fires 0 ex_draining)
   \<and> queue (timer_fires 0 ex_draining) = None
   \<and> FuzzySearch.timeout (timer_fires 0 ex_draining) = Some 0"
proof -
  have "reachable ex_parse (step ex_parse (TimerFires 0) ex_draining)"
    by (rule reachable_step) (rule reachable_ex_draining)
  then have "reachable ex_parse (timer_fires 0 ex_draining)" by (simp add: step_def)
  then show ?thesis by (simp add: ex_draining_eq client_defs)
qed




end
